theory Spec2Isabelle
  imports Main "HOL-Library.AList"
begin

section \<open>Exception classes\<close>

text \<open>
  The exception classes declared in \<^verbatim>\<open>enforce.py\<close> and \<^verbatim>\<open>util.py\<close>, together with the
  builtin classes they derive from or that the modelled code can raise.
\<close>

datatype pyclass =
    BaseException | Exception | TypeError | AttributeError | LookupError | KeyError | IndexError
  | ValueError | RuntimeError | RecursionError
  | PreconditionFailed | PostconditionFailed
  | NotFound | ErrorDuringImport | CrosshairInternal | UnexploredPath
  | UnknownSatisfiability | PathTimeout | CrosshairUnsupported | IgnoreAttempt

text \<open>The base named in each class statement.\<close>

fun base :: "pyclass \<Rightarrow> pyclass option" where
  "base BaseException = None"
| "base Exception = Some BaseException"
| "base TypeError = Some Exception"
| "base AttributeError = Some Exception"
| "base LookupError = Some Exception"
| "base KeyError = Some LookupError"
| "base IndexError = Some LookupError"
| "base ValueError = Some Exception"
| "base RuntimeError = Some Exception"
| "base RecursionError = Some RuntimeError"
| "base PreconditionFailed = Some BaseException"
| "base PostconditionFailed = Some BaseException"
| "base NotFound = Some ValueError"
| "base ErrorDuringImport = Some Exception"
| "base CrosshairInternal = Some Exception"
| "base UnexploredPath = Some Exception"
| "base UnknownSatisfiability = Some UnexploredPath"
| "base PathTimeout = Some UnexploredPath"
| "base CrosshairUnsupported = Some UnexploredPath"
| "base IgnoreAttempt = Some Exception"

fun depth :: "pyclass \<Rightarrow> nat" where
  "depth BaseException = 0"
| "depth Exception = 1"
| "depth PreconditionFailed = 1"
| "depth PostconditionFailed = 1"
| "depth TypeError = 2"
| "depth AttributeError = 2"
| "depth LookupError = 2"
| "depth ValueError = 2"
| "depth RuntimeError = 2"
| "depth ErrorDuringImport = 2"
| "depth CrosshairInternal = 2"
| "depth UnexploredPath = 2"
| "depth IgnoreAttempt = 2"
| "depth c = 3"

text \<open>The chain of classes from a class up to \<^verbatim>\<open>BaseException\<close>.\<close>

function mro :: "pyclass \<Rightarrow> pyclass list" where
  "mro c = c # (case base c of None \<Rightarrow> [] | Some b \<Rightarrow> mro b)"
  by pat_completeness auto
termination
proof (relation "measure depth")
  show "wf (measure depth)" by simp
next
  fix c b
  assume "base c = Some b"
  then have "depth b < depth c" by (cases c) auto
  then show "(b, c) \<in> measure depth" by simp
qed

declare mro.simps [simp del]

definition issubclass :: "pyclass \<Rightarrow> pyclass \<Rightarrow> bool" where
  "issubclass c d = (d \<in> set (mro c))"

datatype exn = Exn (exn_class: pyclass) (message: string)

section \<open>State, callables and conditions\<close>

type_synonym ref = nat

text \<open>
  The state a call runs in: the scope's set \<^verbatim>\<open>fns_enforcing\<close> (callables are hashed by
  identity) and everything else the program can read or write.
\<close>

record 'w pystate =
  fns_enforcing :: "ref set"
  world :: 'w

type_synonym ('x, 'w) comp = "'w pystate \<Rightarrow> (exn + 'x) \<times> 'w pystate"

text \<open>
  What a name is bound to when a condition is evaluated: a value, or the dictionary
  \<^verbatim>\<open>old\<close> of copied arguments.
\<close>

datatype 'v binding = Val 'v | Snapshot "(string \<times> 'v) list"

type_synonym 'v bindings = "string \<rightharpoonup> 'v binding"

text \<open>
  A callable: its identity, what calling it on the arguments of a call does, and the
  result of \<^verbatim>\<open>fn_globals(fn)\<close> (a function of \<^verbatim>\<open>condition_parser\<close>, taken here as
  data of the callable).
\<close>

record ('a, 'v, 'w) callable =
  fn_id :: ref
  fn_call :: "'a \<Rightarrow> ('v, 'w) comp"
  fn_globals :: "'v bindings"

text \<open>
  A condition: \<^verbatim>\<open>eval(c.expr, args)\<close>, read for its truth value, is a function of the
  bindings and of the world that may raise; \<^verbatim>\<open>filename\<close> and \<^verbatim>\<open>line\<close> locate it.
\<close>

record ('v, 'w) condition =
  expr :: "'v bindings \<Rightarrow> 'w \<Rightarrow> exn + bool"
  filename :: string
  line :: nat

text \<open>
  \<^verbatim>\<open>Conditions\<close>: \<^verbatim>\<open>sig\<close> stands for \<^verbatim>\<open>signature.bind\<close> on the arguments of the call, followed by
  \<^verbatim>\<open>apply_defaults()\<close>, giving the ordered \<^verbatim>\<open>bound_args.arguments\<close> or the exception
  that \<^verbatim>\<open>bind\<close> raises.
\<close>

record ('a, 'v, 'w) conditions =
  sig :: "'a \<Rightarrow> exn + (string \<times> 'v) list"
  pre :: "('v, 'w) condition list"
  post :: "('v, 'w) condition list"
  mutable_args :: "string list"

text \<open>
  Modelled from the spec: \<^verbatim>\<open>Conditions.has_any\<close> of \<^verbatim>\<open>condition_parser\<close>, which is
  not among the sources; a callable has conditions when it has at least one
  precondition or postcondition.
\<close>

definition has_any :: "('a, 'v, 'w) conditions \<Rightarrow> bool" where
  "has_any c = (pre c \<noteq> [] \<or> post c \<noteq> [])"

section \<open>Formatting\<close>

function string_of_nat :: "nat \<Rightarrow> string" where
  "string_of_nat n =
     (if n < 10 then [''0123456789'' ! n]
      else string_of_nat (n div 10) @ [''0123456789'' ! (n mod 10)])"
  by pat_completeness auto
termination
  by (relation "measure id") auto

declare string_of_nat.simps [simp del]

fun join :: "string \<Rightarrow> string list \<Rightarrow> string" where
  "join sep [] = []"
| "join sep [x] = x"
| "join sep (x # y # ys) = x @ sep @ join sep (y # ys)"

definition precondition_failed :: "('v, 'w) condition \<Rightarrow> exn" where
  "precondition_failed c =
     Exn PreconditionFailed
       (''Precondition failed at '' @ filename c @ '':'' @ string_of_nat (line c))"

definition postcondition_failed :: "('v, 'w) condition \<Rightarrow> exn" where
  "postcondition_failed c =
     Exn PostconditionFailed
       (''Postcondition failed at '' @ filename c @ '':'' @ string_of_nat (line c))"

definition unrecognized_mutable :: "string list \<Rightarrow> exn" where
  "unrecognized_mutable remaining =
     Exn PostconditionFailed
       (''Unrecognized mutable argument(s) in postcondition: \"''
          @ join '','' remaining @ ''\"'')"

section \<open>The enforcement wrapper\<close>

text \<open>
  \<^verbatim>\<open>currently_enforcing\<close>: add \<^verbatim>\<open>fn\<close> to the set, run the body, and remove it in the
  \<^verbatim>\<open>finally\<close> clause; \<^verbatim>\<open>set.remove\<close> raises \<^verbatim>\<open>KeyError\<close> when the element is gone.
\<close>

definition currently_enforcing :: "ref \<Rightarrow> ('x, 'w) comp \<Rightarrow> ('x, 'w) comp" where
  "currently_enforcing f body s =
     (case body (s\<lparr>fns_enforcing := insert f (fns_enforcing s)\<rparr>) of
        (r, s2) \<Rightarrow>
          if f \<in> fns_enforcing s2
          then (r, s2\<lparr>fns_enforcing := fns_enforcing s2 - {f}\<rparr>)
          else (Inl (Exn KeyError []), s2))"

text \<open>
  Lines 38 to 43: the loop over \<^verbatim>\<open>bound_args.arguments.items()\<close>. \<^verbatim>\<open>cp\<close> stands for
  \<^verbatim>\<open>copy.copy\<close>, which reads the world and raises on a value that cannot be copied.
  The set \<^verbatim>\<open>mutable_args_remaining\<close> is kept as a duplicate-free list, in the order of
  \<^verbatim>\<open>mutable_args\<close>; Python leaves the order in which a set is joined into the message
  open.
\<close>

fun snapshot ::
  "('w \<Rightarrow> 'v \<Rightarrow> exn + 'v) \<Rightarrow> 'w \<Rightarrow> (string \<times> 'v) list \<Rightarrow> (string \<times> 'v) list \<Rightarrow> string list
     \<Rightarrow> exn + ((string \<times> 'v) list \<times> string list)" where
  "snapshot cp w [] old remaining = Inr (old, remaining)"
| "snapshot cp w ((argname, argval) # rest) old remaining =
     (case cp w argval of
        Inl e \<Rightarrow> Inl e
      | Inr c \<Rightarrow> snapshot cp w rest (AList.update argname c old) (removeAll argname remaining))"

definition arguments :: "(string \<times> 'v) list \<Rightarrow> 'v bindings" where
  "arguments bound = map_of (map (\<lambda>(n, v). (n, Val v)) bound)"

definition pre_args :: "('a, 'v, 'w) callable \<Rightarrow> (string \<times> 'v) list \<Rightarrow> 'v bindings" where
  "pre_args fn bound = fn_globals fn ++ arguments bound"

definition post_args ::
  "('a, 'v, 'w) callable \<Rightarrow> (string \<times> 'v) list \<Rightarrow> 'v \<Rightarrow> (string \<times> 'v) list \<Rightarrow> 'v bindings" where
  "post_args fn bound ret old =
     fn_globals fn ++ (arguments bound)(''__return__'' \<mapsto> Val ret, ''__old__'' \<mapsto> Snapshot old)"

fun eval_pre :: "('v, 'w) condition list \<Rightarrow> 'v bindings \<Rightarrow> 'w \<Rightarrow> exn + unit" where
  "eval_pre [] args w = Inr ()"
| "eval_pre (c # cs) args w =
     (case expr c args w of
        Inl e \<Rightarrow> Inl e
      | Inr b \<Rightarrow> if \<not> b then Inl (precondition_failed c) else eval_pre cs args w)"

fun eval_post :: "('v, 'w) condition list \<Rightarrow> 'v bindings \<Rightarrow> 'w \<Rightarrow> exn + unit" where
  "eval_post [] args w = Inr ()"
| "eval_post (c # cs) args w =
     (case expr c args w of
        Inl e \<Rightarrow> Inl e
      | Inr b \<Rightarrow> if \<not> b then Inl (postcondition_failed c) else eval_post cs args w)"

text \<open>The two \<^verbatim>\<open>with currently_enforcing()\<close> blocks.\<close>

definition pre_phase ::
  "('a, 'v, 'w) callable \<Rightarrow> ('a, 'v, 'w) conditions \<Rightarrow> (string \<times> 'v) list \<Rightarrow> (unit, 'w) comp" where
  "pre_phase fn conditions bound =
     currently_enforcing (fn_id fn)
       (\<lambda>s. (eval_pre (pre conditions) (pre_args fn bound) (world s), s))"

definition post_phase ::
  "('a, 'v, 'w) callable \<Rightarrow> ('a, 'v, 'w) conditions \<Rightarrow> (string \<times> 'v) list \<Rightarrow> 'v
     \<Rightarrow> (string \<times> 'v) list \<Rightarrow> (unit, 'w) comp" where
  "post_phase fn conditions bound ret old =
     currently_enforcing (fn_id fn)
       (\<lambda>s. (eval_post (post conditions) (post_args fn bound ret old) (world s), s))"

text \<open>
  A call of the function that \<^verbatim>\<open>EnforcementWrapper(fn, conditions, fns_enforcing)\<close>
  returns, on the arguments \<open>a\<close>; the set
  \<^verbatim>\<open>fns_enforcing\<close> is the one of the state.
\<close>

definition EnforcementWrapper ::
  "('w \<Rightarrow> 'v \<Rightarrow> exn + 'v) \<Rightarrow> ('a, 'v, 'w) callable \<Rightarrow> ('a, 'v, 'w) conditions \<Rightarrow> 'a \<Rightarrow> ('v, 'w) comp" where
  "EnforcementWrapper cp fn conditions a s =
     (if fn_id fn \<in> fns_enforcing s then fn_call fn a s
      else case sig conditions a of
        Inl e \<Rightarrow> (Inl e, s)
      | Inr bound \<Rightarrow>
         (case snapshot cp (world s) bound [] (remdups (mutable_args conditions)) of
            Inl e \<Rightarrow> (Inl e, s)
          | Inr (old, remaining) \<Rightarrow>
              if remaining \<noteq> [] then (Inl (unrecognized_mutable remaining), s)
              else (case pre_phase fn conditions bound s of
                  (Inl e, s1) \<Rightarrow> (Inl e, s1)
                | (Inr _, s1) \<Rightarrow>
                   (case fn_call fn a s1 of
                      (Inl e, s2) \<Rightarrow> (Inl e, s2)
                    | (Inr ret, s2) \<Rightarrow>
                       (case post_phase fn conditions bound ret old s2 of
                          (Inl e, s3) \<Rightarrow> (Inl e, s3)
                        | (Inr _, s3) \<Rightarrow> (Inr ret, s3))))))"

text \<open>A caller's \<^verbatim>\<open>try: body except h: handler\<close>.\<close>

definition try_except :: "('x, 'w) comp \<Rightarrow> pyclass \<Rightarrow> (exn \<Rightarrow> ('x, 'w) comp) \<Rightarrow> ('x, 'w) comp" where
  "try_except body h handler s =
     (case body s of
        (Inl e, s1) \<Rightarrow> if issubclass (exn_class e) h then handler e s1 else (Inl e, s1)
      | (Inr v, s1) \<Rightarrow> (Inr v, s1))"


text \<open>
  Whether a wrapped call gets as far as invoking \<^verbatim>\<open>fn\<close>: through the bypass of
  line 33, or through binding, copying, the check of the mutable names and the
  preconditions.
\<close>

definition reaches_call ::
  "('w \<Rightarrow> 'v \<Rightarrow> exn + 'v) \<Rightarrow> ('a, 'v, 'w) callable \<Rightarrow> ('a, 'v, 'w) conditions \<Rightarrow> 'a \<Rightarrow> 'w pystate \<Rightarrow> bool" where
  "reaches_call cp fn conditions a s =
     (fn_id fn \<in> fns_enforcing s \<or>
      (case sig conditions a of
         Inl e \<Rightarrow> False
       | Inr bound \<Rightarrow>
          (case snapshot cp (world s) bound [] (remdups (mutable_args conditions)) of
             Inl e \<Rightarrow> False
           | Inr (old, remaining) \<Rightarrow>
               remaining = [] \<and> eval_pre (pre conditions) (pre_args fn bound) (world s) = Inr ())))"

section \<open>A small universe of values for the examples\<close>

text \<open>
  Integers, list objects held by reference (their items live in the world), the list a
  shallow copy makes, and a generator, which \<^verbatim>\<open>copy.copy\<close> refuses.
\<close>

datatype pyval = PNone | PBool bool | PInt int | PList ref | PListCopy "int list" | PGenerator

fun copy_copy :: "(ref \<Rightarrow> int list) \<Rightarrow> pyval \<Rightarrow> exn + pyval" where
  "copy_copy w (PList r) = Inr (PListCopy (w r))"
| "copy_copy w PGenerator = Inl (Exn TypeError ''cannot pickle generator object'')"
| "copy_copy w v = Inr v"

definition bind1 :: "string \<Rightarrow> pyval list \<Rightarrow> exn + (string \<times> pyval) list" where
  "bind1 p a = (case a of [x] \<Rightarrow> Inr [(p, x)] | _ \<Rightarrow> Inl (Exn TypeError ''wrong number of arguments''))"


definition half :: "(pyval list, pyval, ref \<Rightarrow> int list) callable" where
  "half = \<lparr> fn_id = 1,
            fn_call = (\<lambda>a s. case a of [PInt x] \<Rightarrow> (Inr (PInt (x div 2)), s)
                                | _ \<Rightarrow> (Inl (Exn TypeError ''unsupported operand''), s)),
            fn_globals = Map.empty \<rparr>"

definition x_is_even :: "(pyval, ref \<Rightarrow> int list) condition" where
  "x_is_even = \<lparr> expr = (\<lambda>args w. case args ''x'' of Some (Val (PInt x)) \<Rightarrow> Inr (even x)
                                     | _ \<Rightarrow> Inl (Exn TypeError ''unsupported operand'')),
                 filename = ''half.py'', line = 3 \<rparr>"

definition return_doubles :: "(pyval, ref \<Rightarrow> int list) condition" where
  "return_doubles =
     \<lparr> expr = (\<lambda>args w. case (args ''__return__'', args ''x'') of
                          (Some (Val (PInt r)), Some (Val (PInt x))) \<Rightarrow> Inr (r * 2 = x)
                        | _ \<Rightarrow> Inl (Exn TypeError ''unsupported operand'')),
       filename = ''half.py'', line = 4 \<rparr>"

definition half_conditions :: "(pyval list, pyval, ref \<Rightarrow> int list) conditions" where
  "half_conditions = \<lparr> sig = bind1 ''x'', pre = [x_is_even], post = [return_doubles], mutable_args = [] \<rparr>"




definition consume :: "(pyval list, pyval, ref \<Rightarrow> int list) callable" where
  "consume = \<lparr> fn_id = 3, fn_call = (\<lambda>a s. (Inr PNone, s)), fn_globals = Map.empty \<rparr>"

definition always_true :: "(pyval, ref \<Rightarrow> int list) condition" where
  "always_true = \<lparr> expr = (\<lambda>args w. Inr True), filename = ''consume.py'', line = 2 \<rparr>"

definition consume_conditions :: "string list \<Rightarrow> (pyval list, pyval, ref \<Rightarrow> int list) conditions" where
  "consume_conditions ms = \<lparr> sig = bind1 ''g'', pre = [always_true], post = [], mutable_args = ms \<rparr>"

definition failing :: "(pyval list, pyval, ref \<Rightarrow> int list) callable" where
  "failing = \<lparr> fn_id = 4, fn_call = (\<lambda>a s. (Inl (Exn ValueError ''boom''), s\<lparr>world := (world s)(0 := [7])\<rparr>)),
               fn_globals = Map.empty \<rparr>"

definition idle :: "ref set \<Rightarrow> (ref \<Rightarrow> int list) pystate" where
  "idle g = \<lparr> fns_enforcing = g, world = (\<lambda>r. []) \<rparr>"



section \<open>Objects, environments and the enforcement scope\<close>

text \<open>
  The objects the scope looks at, by what its tests can tell apart: a Python function, a
  builtin function, the closure \<^verbatim>\<open>wrapper\<close> that \<^verbatim>\<open>EnforcementWrapper\<close> returns (with the
  callable it delegates to, its conditions, and the \<^verbatim>\<open>registry\<close> attribute that
  \<^verbatim>\<open>functools.update_wrapper\<close> copied from the wrapped callable), a function made by
  \<^verbatim>\<open>functools.singledispatch\<close> with its registry of (type, implementation) in insertion
  order, a class with its attributes in the order \<^verbatim>\<open>inspect.getmembers\<close> lists them, and
  any other value, with its attribute \<^verbatim>\<open>registry\<close> when it has one that is a Mapping.
  An object is named by its reference, its position in the heap.
\<close>

datatype 'c obj =
    Function
  | Builtin
  | Wrapper ref 'c "(ref \<times> ref) list option"
  | Dispatcher "(ref \<times> ref) list"
  | Class "(string \<times> ref) list"
  | Plain "(ref \<times> ref) list option"

definition obj_at :: "'c obj list \<Rightarrow> ref \<Rightarrow> 'c obj" where
  "obj_at h r = (if r < length h then h ! r else Plain None)"

text \<open>\<^verbatim>\<open>is_singledispatcher(fn)\<close> holds when this is not \<^verbatim>\<open>None\<close>.\<close>

fun registry :: "'c obj \<Rightarrow> (ref \<times> ref) list option" where
  "registry (Dispatcher reg) = Some reg"
| "registry (Wrapper f c reg) = reg"
| "registry (Plain reg) = reg"
| "registry Function = None"
| "registry Builtin = None"
| "registry (Class attrs) = None"

definition is_singledispatcher :: "'c obj \<Rightarrow> bool" where
  "is_singledispatcher ob = (registry ob \<noteq> None)"

text \<open>\<^verbatim>\<open>isinstance(v, (types.FunctionType, types.BuiltinFunctionType))\<close>.\<close>

fun is_function_or_builtin :: "'c obj \<Rightarrow> bool" where
  "is_function_or_builtin Function = True"
| "is_function_or_builtin Builtin = True"
| "is_function_or_builtin (Wrapper f c reg) = True"
| "is_function_or_builtin (Dispatcher reg) = True"
| "is_function_or_builtin (Class attrs) = False"
| "is_function_or_builtin (Plain reg) = False"

text \<open>\<^verbatim>\<open>inspect.isfunction\<close>.\<close>

fun isfunction :: "'c obj \<Rightarrow> bool" where
  "isfunction Function = True"
| "isfunction (Wrapper f c reg) = True"
| "isfunction (Dispatcher reg) = True"
| "isfunction Builtin = False"
| "isfunction (Class attrs) = False"
| "isfunction (Plain reg) = False"

text \<open>\<^verbatim>\<open>isinstance(v, type)\<close>.\<close>

fun is_type :: "'c obj \<Rightarrow> bool" where
  "is_type (Class attrs) = True"
| "is_type Function = False"
| "is_type Builtin = False"
| "is_type (Wrapper f c reg) = False"
| "is_type (Dispatcher reg) = False"
| "is_type (Plain reg) = False"

text \<open>
  \<^verbatim>\<open>ClassConditions\<close> and the two functions of the Condition Provider, none of them
  among the sources: the result of \<^verbatim>\<open>has_any()\<close> on class conditions is taken as data, and
  \<^verbatim>\<open>methods\<close> pairs method objects with their conditions.
\<close>

record ('a, 'v, 'w) class_conditions =
  class_has_any :: bool
  methods :: "(ref \<times> ('a, 'v, 'w) conditions) list"

record ('a, 'v, 'w) provider =
  get_fn_conditions :: "ref \<Rightarrow> ('a, 'v, 'w) conditions"
  get_class_conditions :: "ref \<Rightarrow> ('a, 'v, 'w) class_conditions"

text \<open>
  \<^verbatim>\<open>EnforcedConditions\<close> with what it acts on: the heap, the environments (dictionaries
  from names to references, in insertion order), the interceptor and the two maps
  (\<^verbatim>\<open>original_map\<close> is keyed by \<^verbatim>\<open>IdentityWrapper\<close>, that is by identity, like functions
  in \<^verbatim>\<open>wrapper_map\<close>). The set \<^verbatim>\<open>fns_enforcing\<close> is the one of \<open>pystate\<close>.
\<close>

record ('a, 'v, 'w) scope =
  heap :: "('a, 'v, 'w) conditions obj list"
  envs :: "(string \<times> ref) list list"
  interceptor :: "ref \<Rightarrow> ref"
  wrapper_map :: "ref \<rightharpoonup> ref"
  original_map :: "ref \<rightharpoonup> ref"

type_synonym ('x, 'a, 'v, 'w) op = "('a, 'v, 'w) scope \<Rightarrow> (exn + 'x) \<times> ('a, 'v, 'w) scope"

text \<open>The constructor of \<^verbatim>\<open>EnforcedConditions\<close>: a new scope on environments.\<close>

definition init ::
  "('a, 'v, 'w) conditions obj list \<Rightarrow> (string \<times> ref) list list \<Rightarrow> (ref \<Rightarrow> ref) \<Rightarrow> ('a, 'v, 'w) scope" where
  "init h es icpt =
     \<lparr> heap = h, envs = es, interceptor = icpt, wrapper_map = Map.empty, original_map = Map.empty \<rparr>"

definition alloc :: "('a, 'v, 'w) conditions obj \<Rightarrow> ('a, 'v, 'w) scope \<Rightarrow> ref \<times> ('a, 'v, 'w) scope" where
  "alloc ob st = (length (heap st), st\<lparr>heap := heap st @ [ob]\<rparr>)"

definition is_enforcement_wrapper :: "('a, 'v, 'w) scope \<Rightarrow> ref \<Rightarrow> bool" where
  "is_enforcement_wrapper st v = (original_map st v \<noteq> None)"

text \<open>
  \<^verbatim>\<open>_wrap_fn(fn, conditions=None)\<close>. A \<^verbatim>\<open>Conditions\<close> object is true, so
  \<^verbatim>\<open>conditions or get_fn_conditions(fn)\<close> is the one given when there is one.
\<close>

definition wrap_fn ::
  "('a, 'v, 'w) provider \<Rightarrow> ref \<Rightarrow> ('a, 'v, 'w) conditions option \<Rightarrow> ('a, 'v, 'w) scope
     \<Rightarrow> ref \<times> ('a, 'v, 'w) scope" where
  "wrap_fn P fn given st =
     (case wrapper_map st fn of
        Some wrapper \<Rightarrow> (wrapper, st)
      | None \<Rightarrow>
          if is_enforcement_wrapper st fn then (fn, st)
          else
            let conditions = (case given of Some c \<Rightarrow> c | None \<Rightarrow> get_fn_conditions P fn);
                (wrapper, st1) =
                   (if has_any conditions
                    then alloc (Wrapper (interceptor st fn) conditions (registry (obj_at (heap st) fn))) st
                    else (fn, st))
            in (wrapper, st1\<lparr>wrapper_map := (wrapper_map st1)(fn \<mapsto> wrapper),
                              original_map := (original_map st1)(wrapper \<mapsto> fn)\<rparr>))"

text \<open>
  \<^verbatim>\<open>setattr(cls, name, value)\<close> on a class, and
  \<^verbatim>\<open>inspect.getmembers(cls, inspect.isfunction)\<close>.
\<close>

definition setattr :: "ref \<Rightarrow> string \<Rightarrow> ref \<Rightarrow> ('a, 'v, 'w) scope \<Rightarrow> ('a, 'v, 'w) scope" where
  "setattr cls name v st =
     (case obj_at (heap st) cls of
        Class attrs \<Rightarrow> st\<lparr>heap := (heap st)[cls := Class (AList.update name v attrs)]\<rparr>
      | _ \<Rightarrow> st)"

definition getmembers_isfunction :: "('a, 'v, 'w) scope \<Rightarrow> ref \<Rightarrow> (string \<times> ref) list" where
  "getmembers_isfunction st cls =
     (case obj_at (heap st) cls of
        Class attrs \<Rightarrow> filter (\<lambda>(name, m). isfunction (obj_at (heap st) m)) attrs
      | _ \<Rightarrow> [])"

text \<open>\<^verbatim>\<open>_wrap_class\<close>; \<^verbatim>\<open>dict(class_conditions.methods)\<close> keeps the last pair of a key.\<close>

definition wrap_method ::
  "('a, 'v, 'w) provider \<Rightarrow> ref \<Rightarrow> ('a, 'v, 'w) class_conditions \<Rightarrow> string \<times> ref
     \<Rightarrow> ('a, 'v, 'w) scope \<Rightarrow> ('a, 'v, 'w) scope" where
  "wrap_method P cls class_conditions member st =
     (case map_of (rev (methods class_conditions)) (snd member) of
        None \<Rightarrow> st
      | Some conditions \<Rightarrow>
          (case wrap_fn P (snd member) (Some conditions) st of
             (wrapper, st1) \<Rightarrow> setattr cls (fst member) wrapper st1))"

definition wrap_class ::
  "('a, 'v, 'w) provider \<Rightarrow> ref \<Rightarrow> ('a, 'v, 'w) class_conditions \<Rightarrow> ('a, 'v, 'w) scope \<Rightarrow> ('a, 'v, 'w) scope" where
  "wrap_class P cls class_conditions st =
     fold (wrap_method P cls class_conditions) (getmembers_isfunction st cls) st"

text \<open>
  \<^verbatim>\<open>_transform_singledispatch(fn, transformer)\<close>. \<^verbatim>\<open>functools.singledispatch(f)\<close> makes
  a new function whose registry is \<^verbatim>\<open>{object: f}\<close>, and \<^verbatim>\<open>wrapped.register(typ)(f)\<close>
  sets \<^verbatim>\<open>registry[typ] = f\<close>. \<^verbatim>\<open>overloads[0]\<close> raises \<^verbatim>\<open>IndexError\<close> on an empty
  registry. The builtin class \<^verbatim>\<open>object\<close> has reference 0.
\<close>

definition object_type :: ref where
  "object_type = 0"

definition register :: "ref \<Rightarrow> ref \<Rightarrow> ref \<Rightarrow> ('a, 'v, 'w) scope \<Rightarrow> ('a, 'v, 'w) scope" where
  "register wrapped typ f st =
     (case obj_at (heap st) wrapped of
        Dispatcher reg \<Rightarrow> st\<lparr>heap := (heap st)[wrapped := Dispatcher (AList.update typ f reg)]\<rparr>
      | _ \<Rightarrow> st)"

fun register_all ::
  "(ref \<Rightarrow> (ref, 'a, 'v, 'w) op) \<Rightarrow> ref \<Rightarrow> (ref \<times> ref) list \<Rightarrow> (unit, 'a, 'v, 'w) op" where
  "register_all transformer wrapped [] st = (Inr (), st)"
| "register_all transformer wrapped ((overload_typ, overload_fn) # rest) st =
     (case transformer overload_fn st of
        (Inl e, st1) \<Rightarrow> (Inl e, st1)
      | (Inr f, st1) \<Rightarrow> register_all transformer wrapped rest (register wrapped overload_typ f st1))"

definition transform_singledispatch ::
  "ref \<Rightarrow> (ref \<Rightarrow> (ref, 'a, 'v, 'w) op) \<Rightarrow> (ref, 'a, 'v, 'w) op" where
  "transform_singledispatch fn transformer st =
     (case registry (obj_at (heap st) fn) of
        None \<Rightarrow> (Inl (Exn AttributeError ''registry''), st)
      | Some [] \<Rightarrow> (Inl (Exn IndexError ''list index out of range''), st)
      | Some ((typ0, f0) # rest) \<Rightarrow>
          (case transformer f0 st of
             (Inl e, st1) \<Rightarrow> (Inl e, st1)
           | (Inr f, st1) \<Rightarrow>
               (case alloc (Dispatcher [(object_type, f)]) st1 of
                  (wrapped, st2) \<Rightarrow>
                    (case register_all transformer wrapped rest st2 of
                       (Inl e, st3) \<Rightarrow> (Inl e, st3)
                     | (Inr u, st3) \<Rightarrow> (Inr wrapped, st3)))))"

text \<open>\<^verbatim>\<open>__enter__\<close>: the loop over the items of one environment, then over all of them.\<close>

definition wrap_fn_op :: "('a, 'v, 'w) provider \<Rightarrow> ref \<Rightarrow> (ref, 'a, 'v, 'w) op" where
  "wrap_fn_op P fn st = (case wrap_fn P fn None st of (wrapper, st1) \<Rightarrow> (Inr wrapper, st1))"

fun enter_items ::
  "('a, 'v, 'w) provider \<Rightarrow> (string \<times> ref) list \<Rightarrow> (string \<times> ref) list \<Rightarrow> ((string \<times> ref) list, 'a, 'v, 'w) op" where
  "enter_items P [] next_env st = (Inr next_env, st)"
| "enter_items P ((k, v) # rest) next_env st =
     (if is_function_or_builtin (obj_at (heap st) v) then
        if is_singledispatcher (obj_at (heap st) v) then
          (case transform_singledispatch v (wrap_fn_op P) st of
             (Inl e, st1) \<Rightarrow> (Inl e, st1)
           | (Inr wrapper, st1) \<Rightarrow> enter_items P rest (AList.update k wrapper next_env) st1)
        else
          (case wrap_fn P v None st of
             (wrapper, st1) \<Rightarrow>
               if wrapper = v then enter_items P rest next_env st1
               else enter_items P rest (AList.update k wrapper next_env) st1)
      else if is_type (obj_at (heap st) v) then
        (if class_has_any (get_class_conditions P v)
         then enter_items P rest next_env (wrap_class P v (get_class_conditions P v) st)
         else enter_items P rest next_env st)
      else enter_items P rest next_env st)"

fun enter_envs ::
  "('a, 'v, 'w) provider \<Rightarrow> (string \<times> ref) list list \<Rightarrow> ((string \<times> ref) list list, 'a, 'v, 'w) op" where
  "enter_envs P [] st = (Inr [], st)"
| "enter_envs P (env # rest) st =
     (case enter_items P env env st of
        (Inl e, st1) \<Rightarrow> (Inl e, st1)
      | (Inr next_env, st1) \<Rightarrow>
          (case enter_envs P rest st1 of
             (Inl e, st2) \<Rightarrow> (Inl e, st2)
           | (Inr next_envs, st2) \<Rightarrow> (Inr (next_env # next_envs), st2)))"

text \<open>\<^verbatim>\<open>env.update(next_env)\<close>.\<close>

definition dict_update :: "(string \<times> ref) list \<Rightarrow> (string \<times> ref) list \<Rightarrow> (string \<times> ref) list" where
  "dict_update env next_env = fold (\<lambda>(k, v). AList.update k v) next_env env"

definition enter :: "('a, 'v, 'w) provider \<Rightarrow> (unit, 'a, 'v, 'w) op" where
  "enter P st =
     (case enter_envs P (envs st) st of
        (Inl e, st1) \<Rightarrow> (Inl e, st1)
      | (Inr next_envs, st1) \<Rightarrow> (Inr (), st1\<lparr>envs := map2 dict_update (envs st1) next_envs\<rparr>))"

text \<open>\<^verbatim>\<open>_unwrap_class\<close> and \<^verbatim>\<open>_unwrap\<close>; the recursion of \<^verbatim>\<open>_unwrap\<close> through
  \<^verbatim>\<open>_transform_singledispatch\<close> is bounded by the interpreter's recursion limit.\<close>

definition unwrap_method :: "ref \<Rightarrow> string \<times> ref \<Rightarrow> ('a, 'v, 'w) scope \<Rightarrow> ('a, 'v, 'w) scope" where
  "unwrap_method cls member st =
     (case original_map st (snd member) of
        None \<Rightarrow> st
      | Some original \<Rightarrow> setattr cls (fst member) original st)"

definition unwrap_class :: "ref \<Rightarrow> ('a, 'v, 'w) scope \<Rightarrow> ('a, 'v, 'w) scope" where
  "unwrap_class cls st = fold (unwrap_method cls) (getmembers_isfunction st cls) st"

primrec unwrap :: "nat \<Rightarrow> ref \<Rightarrow> (ref, 'a, 'v, 'w) op" where
  "unwrap 0 = (\<lambda>v st. (Inl (Exn RecursionError ''maximum recursion depth exceeded''), st))"
| "unwrap (Suc limit) =
     (\<lambda>v st.
        case original_map st v of
          Some original \<Rightarrow> (Inr original, st)
        | None \<Rightarrow>
            if is_singledispatcher (obj_at (heap st) v)
            then transform_singledispatch v (unwrap limit) st
            else if is_type (obj_at (heap st) v) then (Inr v, unwrap_class v st)
            else (Inr v, st))"

text \<open>\<^verbatim>\<open>__exit__\<close>.\<close>

fun exit_items ::
  "nat \<Rightarrow> (string \<times> ref) list \<Rightarrow> (string \<times> ref) list \<Rightarrow> ((string \<times> ref) list, 'a, 'v, 'w) op" where
  "exit_items limit [] next_env st = (Inr next_env, st)"
| "exit_items limit ((k, v) # rest) next_env st =
     (case unwrap limit v st of
        (Inl e, st1) \<Rightarrow> (Inl e, st1)
      | (Inr u, st1) \<Rightarrow> exit_items limit rest (AList.update k u next_env) st1)"

fun exit_envs :: "nat \<Rightarrow> (string \<times> ref) list list \<Rightarrow> ((string \<times> ref) list list, 'a, 'v, 'w) op" where
  "exit_envs limit [] st = (Inr [], st)"
| "exit_envs limit (env # rest) st =
     (case exit_items limit env env st of
        (Inl e, st1) \<Rightarrow> (Inl e, st1)
      | (Inr next_env, st1) \<Rightarrow>
          (case exit_envs limit rest st1 of
             (Inl e, st2) \<Rightarrow> (Inl e, st2)
           | (Inr next_envs, st2) \<Rightarrow> (Inr (next_env # next_envs), st2)))"

definition exit_scope :: "nat \<Rightarrow> (bool, 'a, 'v, 'w) op" where
  "exit_scope limit st =
     (case exit_envs limit (envs st) st of
        (Inl e, st1) \<Rightarrow> (Inl e, st1)
      | (Inr next_envs, st1) \<Rightarrow> (Inr False, st1\<lparr>envs := map2 dict_update (envs st1) next_envs\<rparr>))"


section \<open>An example heap, provider and environment\<close>

definition no_conditions :: "(pyval list, pyval, ref \<Rightarrow> int list) conditions" where
  "no_conditions = \<lparr> sig = bind1 ''x'', pre = [], post = [], mutable_args = [] \<rparr>"

text \<open>
  Reference 0 is \<^verbatim>\<open>object\<close>, 1 a function with conditions, 2 a function without, 3 and 4
  the two implementations of the dispatcher 6 (only 4 has conditions), 5 the class
  \<^verbatim>\<open>int\<close>, 7 a class whose method 8 has conditions, 9 a value that is neither a function
  nor a class, 10 a dispatcher whose only implementation is 3.
\<close>

definition example_heap :: "(pyval list, pyval, ref \<Rightarrow> int list) conditions obj list" where
  "example_heap =
     [Class [], Function, Function, Function, Function, Class [],
      Dispatcher [(0, 3), (5, 4)], Class [(''method'', 8)], Function, Plain None,
      Dispatcher [(0, 3)]]"

definition example_provider :: "(pyval list, pyval, ref \<Rightarrow> int list) provider" where
  "example_provider =
     \<lparr> get_fn_conditions = (\<lambda>fn. if fn = 1 \<or> fn = 4 then half_conditions else no_conditions),
       get_class_conditions =
         (\<lambda>cls. if cls = 7 then \<lparr> class_has_any = True, methods = [(8, half_conditions)] \<rparr>
                 else \<lparr> class_has_any = False, methods = [] \<rparr>) \<rparr>"

definition example_env :: "(string \<times> ref) list" where
  "example_env = [(''f'', 1), (''g'', 2), (''d'', 6), (''e'', 10), (''C'', 7), (''n'', 9)]"

definition example_scope :: "(pyval list, pyval, ref \<Rightarrow> int list) scope" where
  "example_scope = init example_heap [example_env] (\<lambda>fn. fn)"

text \<open>The example scope after activation, and after activation and deactivation.\<close>

definition example_entered :: "(pyval list, pyval, ref \<Rightarrow> int list) scope" where
  "example_entered = snd (enter example_provider example_scope)"

definition example_exited :: "(pyval list, pyval, ref \<Rightarrow> int list) scope" where
  "example_exited = snd (exit_scope 5 example_entered)"


section \<open>Well-formed heaps and the invariant of a scope\<close>

text \<open>
  The references an object holds that the scope may follow: the implementations of a
  registry and the attributes of a class. A heap is closed when they all point into it.
\<close>

definition refs_of :: "'c obj \<Rightarrow> ref list" where
  "refs_of ob =
     (case registry ob of None \<Rightarrow> [] | Some reg \<Rightarrow> map snd reg) @
     (case ob of Class attrs \<Rightarrow> map snd attrs | _ \<Rightarrow> [])"

definition closed :: "'c obj list \<Rightarrow> bool" where
  "closed h = (\<forall>ob \<in> set h. \<forall>r \<in> set (refs_of ob). r < length h)"

definition envs_ok :: "('a, 'v, 'w) scope \<Rightarrow> bool" where
  "envs_ok st = (\<forall>env \<in> set (envs st). \<forall>v \<in> snd ` set env. v < length (heap st))"

definition envs_fine :: "('a, 'v, 'w) scope \<Rightarrow> bool" where
  "envs_fine st = (envs_ok st \<and> (\<forall>env \<in> set (envs st). distinct (map fst env)))"

definition well_formed :: "('a, 'v, 'w) scope \<Rightarrow> bool" where
  "well_formed st =
     (closed (heap st) \<and> envs_ok st \<and> (\<forall>env \<in> set (envs st). distinct (map fst env)))"

text \<open>
  The Condition Provider gives a callable conditions: as a function, or as a method in
  the conditions of some class.
\<close>

definition carries_conditions :: "('a, 'v, 'w) provider \<Rightarrow> ref \<Rightarrow> bool" where
  "carries_conditions P fn =
     (has_any (get_fn_conditions P fn) \<or>
      (\<exists>cls c. (fn, c) \<in> set (methods (get_class_conditions P cls)) \<and> has_any c))"

definition originals_ok :: "nat \<Rightarrow> ('a, 'v, 'w) scope \<Rightarrow> bool" where
  "originals_ok n0 st =
     (\<forall>w f. original_map st w = Some f \<longrightarrow>
        w < length (heap st) \<and> f < length (heap st) \<and> (w = f \<or> n0 \<le> w))"

definition maps_agree :: "('a, 'v, 'w) scope \<Rightarrow> bool" where
  "maps_agree st = (\<forall>f w. (wrapper_map st f = Some w) = (original_map st w = Some f))"

definition cache_ok :: "('a, 'v, 'w) provider \<Rightarrow> ('a, 'v, 'w) scope \<Rightarrow> bool" where
  "cache_ok P st = (\<forall>f w. wrapper_map st f = Some w \<and> w \<noteq> f \<longrightarrow> carries_conditions P f)"

text \<open>The invariant, for a scope made on a heap of \<open>n0\<close> objects.\<close>

definition consistent :: "('a, 'v, 'w) provider \<Rightarrow> nat \<Rightarrow> ('a, 'v, 'w) scope \<Rightarrow> bool" where
  "consistent P n0 st =
     (n0 \<le> length (heap st) \<and> closed (heap st) \<and> originals_ok n0 st \<and> maps_agree st \<and> cache_ok P st)"

text \<open>What every operation of the scope keeps from the state it starts in.\<close>

definition extends :: "nat \<Rightarrow> ('a, 'v, 'w) scope \<Rightarrow> ('a, 'v, 'w) scope \<Rightarrow> bool" where
  "extends n0 st st' =
     (length (heap st) \<le> length (heap st') \<and>
      (\<forall>r < n0. registry (obj_at (heap st') r) = registry (obj_at (heap st) r)) \<and>
      (\<forall>w f. original_map st w = Some f \<longrightarrow> original_map st' w = Some f) \<and>
      envs st' = envs st \<and> interceptor st' = interceptor st)"

definition same_maps :: "('a, 'v, 'w) scope \<Rightarrow> ('a, 'v, 'w) scope \<Rightarrow> bool" where
  "same_maps st st' = (wrapper_map st' = wrapper_map st \<and> original_map st' = original_map st)"

definition sound_transformer ::
  "('a, 'v, 'w) provider \<Rightarrow> nat \<Rightarrow> (ref \<Rightarrow> (ref, 'a, 'v, 'w) op) \<Rightarrow> bool" where
  "sound_transformer P n0 t =
     (\<forall>f st r st'. consistent P n0 st \<and> f < length (heap st) \<and> t f st = (r, st') \<longrightarrow>
        consistent P n0 st' \<and> extends n0 st st' \<and> (\<forall>w. r = Inr w \<longrightarrow> w < length (heap st')))"

text \<open>
  What activation makes of one environment: the same names, and for a value that is not
  a single-dispatch function either the value itself or a wrapper registered for it
  (the value itself when it carries no conditions).
\<close>

definition rebinds ::
  "('a, 'v, 'w) provider \<Rightarrow> nat \<Rightarrow> ('a, 'v, 'w) scope \<Rightarrow> ('a, 'v, 'w) scope
     \<Rightarrow> (string \<times> ref) list \<Rightarrow> (string \<times> ref) list \<Rightarrow> bool" where
  "rebinds P n0 st st' env next_env =
     (map fst next_env = map fst env \<and>
      (\<forall>v \<in> snd ` set next_env. v < length (heap st')) \<and>
      (\<forall>(k, v) \<in> set env.
         v < n0 \<and> \<not> is_singledispatcher (obj_at (heap st) v) \<longrightarrow>
         (\<exists>b. map_of next_env k = Some b \<and> (b = v \<or> original_map st' b = Some v)
              \<and> (\<not> carries_conditions P v \<longrightarrow> b = v))))"

text \<open>
  What deactivation makes of one environment: the same names, and the original of every
  binding that is such a value or a wrapper registered for it.
\<close>

definition restores ::
  "nat \<Rightarrow> ('a, 'v, 'w) scope \<Rightarrow> ('a, 'v, 'w) scope \<Rightarrow> (string \<times> ref) list \<Rightarrow> (string \<times> ref) list \<Rightarrow> bool" where
  "restores n0 st st' env next_env =
     (map fst next_env = map fst env \<and>
      (\<forall>v \<in> snd ` set next_env. v < length (heap st')) \<and>
      (\<forall>(k, b) \<in> set env. \<forall>v.
         v < n0 \<and> \<not> is_singledispatcher (obj_at (heap st) v) \<and>
         (b = v \<or> original_map st b = Some v) \<longrightarrow> map_of next_env k = Some v))"

text \<open>
  The states of a scope instance: made on a well-formed heap and environments, then
  any sequence of wraps, activations and deactivations.
\<close>

inductive reachable :: "('a, 'v, 'w) provider \<Rightarrow> ('a, 'v, 'w) scope \<Rightarrow> bool" where
  made: "well_formed (init h es icpt) \<Longrightarrow> reachable P (init h es icpt)"
| wrapped: "reachable P st \<Longrightarrow> fn < length (heap st) \<Longrightarrow> reachable P (snd (wrap_fn P fn None st))"
| entered: "reachable P st \<Longrightarrow> reachable P (snd (enter P st))"
| exited: "reachable P st \<Longrightarrow> reachable P (snd (exit_scope limit st))"


section \<open>Properties of the enforcement wrapper\<close>

lemma currently_enforcing_pure:
  "f \<notin> fns_enforcing s \<Longrightarrow> currently_enforcing f (\<lambda>s. (g (world s), s)) s = (g (world s), s)"
  by (simp add: currently_enforcing_def)

lemma snapshot_remaining:
  "snapshot cp w bs old rem = Inr (old', rem') \<Longrightarrow> rem' = filter (\<lambda>n. n \<notin> fst ` set bs) rem"
proof (induction bs arbitrary: old rem)
  case Nil then show ?case by simp
next
  case (Cons b bs)
  obtain n v where b: "b = (n, v)" by (cases b)
  from Cons.prems b obtain c where c: "cp w v = Inr c"
    and rest: "snapshot cp w bs (AList.update n c old) (removeAll n rem) = Inr (old', rem')"
    by (auto split: sum.splits)
  from Cons.IH[OF rest] show ?case using b
    by (auto simp: removeAll_filter_not_eq intro: filter_cong)
qed

lemma snapshot_total:
  "\<forall>(n, v) \<in> set bs. \<exists>c. cp w v = Inr c \<Longrightarrow> \<exists>old' rem'. snapshot cp w bs old rem = Inr (old', rem')"
  by (induction bs arbitrary: old rem) (auto split: sum.splits)

lemma snapshot_fails:
  "(n, v) \<in> set bs \<Longrightarrow> cp w v = Inl e \<Longrightarrow> \<exists>e'. snapshot cp w bs old rem = Inl e'"
  by (induction bs arbitrary: old rem) (auto split: sum.splits)




lemma pre_phase_pure:
  "fn_id fn \<notin> fns_enforcing s \<Longrightarrow>
     pre_phase fn conditions bound s = (eval_pre (pre conditions) (pre_args fn bound) (world s), s)"
  unfolding pre_phase_def by (rule currently_enforcing_pure)




text \<open>
  C5. When the wrapped call gets as far as invoking the callable and the callable
  raises, the wrapper ends with that very exception and the state the callable left, and
  the result is the same whatever the postconditions are: none is evaluated.
\<close>
theorem implementation_failure_propagates:
  assumes "reaches_call cp fn conditions a s" and "fn_call fn a s = (Inl e, s')"
  shows "EnforcementWrapper cp fn conditions a s = (Inl e, s') \<and>
         (\<forall>ps. EnforcementWrapper cp fn (conditions\<lparr>post := ps\<rparr>) a s = (Inl e, s'))"
proof (cases "fn_id fn \<in> fns_enforcing s")
  case True
  with assms(2) show ?thesis by (simp add: EnforcementWrapper_def)
next
  case False
  with assms(1) obtain bound old where b: "sig conditions a = Inr bound"
    and o: "snapshot cp (world s) bound [] (remdups (mutable_args conditions)) = Inr (old, [])"
    and p: "eval_pre (pre conditions) (pre_args fn bound) (world s) = Inr ()"
    by (auto simp: reaches_call_def split: sum.splits prod.splits)
  have "\<And>c. pre c = pre conditions \<Longrightarrow> pre_phase fn c bound s = (Inr (), s)"
    using False p by (simp add: pre_phase_pure)
  then show ?thesis using False b o assms(2)
    by (simp add: EnforcementWrapper_def)
qed

theorem implementation_failure_propagates_witness:
  "reaches_call copy_copy failing (consume_conditions []) [PNone] (idle {}) \<and>
   EnforcementWrapper copy_copy failing (consume_conditions []) [PNone] (idle {})
     = (Inl (Exn ValueError ''boom''), (idle {})\<lparr>world := (world (idle {}))(0 := [7])\<rparr>)"
proof -
  have r: "reaches_call copy_copy failing (consume_conditions []) [PNone] (idle {})"
    by (simp add: reaches_call_def failing_def consume_conditions_def bind1_def idle_def always_true_def)
  have c: "fn_call failing [PNone] (idle {}) = (Inl (Exn ValueError ''boom''), (idle {})\<lparr>world := (world (idle {}))(0 := [7])\<rparr>)"
    by (simp add: failing_def)
  from implementation_failure_propagates [OF r c] r show ?thesis by simp
qed



text \<open>
  C8, amended. Outside the bypass, when the arguments bind, every bound value can be
  copied and some name declared mutable is not a bound parameter name, the call raises
  \<^verbatim>\<open>PostconditionFailed\<close>, leaves the state as it was and does not depend on what
  calling the callable would do. (A bound value that cannot be copied makes the loop of
  lines 40 to 43 raise before the check of line 44 is reached.)
\<close>
theorem unbound_mutable_argument_fails:
  assumes "fn_id fn \<notin> fns_enforcing s"
    and "sig conditions a = Inr bound"
    and "\<forall>(n, v) \<in> set bound. \<exists>c. cp (world s) v = Inr c"
    and "\<not> set (mutable_args conditions) \<subseteq> fst ` set bound"
  shows "\<exists>msg. EnforcementWrapper cp fn conditions a s = (Inl (Exn PostconditionFailed msg), s) \<and>
           (\<forall>g. EnforcementWrapper cp (fn\<lparr>fn_call := g\<rparr>) conditions a s
                  = (Inl (Exn PostconditionFailed msg), s))"
proof -
  from snapshot_total [of bound cp "world s" "[]" "remdups (mutable_args conditions)"] assms(3)
  obtain old remaining
    where o: "snapshot cp (world s) bound [] (remdups (mutable_args conditions)) = Inr (old, remaining)"
    by blast
  from snapshot_remaining [OF o]
  have "set remaining = set (mutable_args conditions) - fst ` set bound" by auto
  with assms(4) have "remaining \<noteq> []" by auto
  with assms(1,2) o show ?thesis
    by (simp add: EnforcementWrapper_def unrecognized_mutable_def)
qed

theorem unbound_mutable_argument_fails_witness:
  "fn_id consume \<notin> fns_enforcing (idle {}) \<and>
   EnforcementWrapper copy_copy consume (consume_conditions [''zzz'']) [PInt 5] (idle {})
     = (Inl (Exn PostconditionFailed ''Unrecognized mutable argument(s) in postcondition: \"zzz\"''), idle {})"
proof -
  have 1: "fn_id consume \<notin> fns_enforcing (idle {})" by (simp add: consume_def idle_def)
  have 2: "sig (consume_conditions [''zzz'']) [PInt 5] = Inr [(''g'', PInt 5)]"
    by (simp add: consume_conditions_def bind1_def)
  have 3: "\<forall>(n, v) \<in> set [(''g'', PInt 5)]. \<exists>c. copy_copy (world (idle {})) v = Inr c" by simp
  have 4: "\<not> set (mutable_args (consume_conditions [''zzz''])) \<subseteq> fst ` set [(''g'', PInt 5)]"
    by (simp add: consume_conditions_def)
  from unbound_mutable_argument_fails [of consume "idle {}" "consume_conditions [''zzz'']" "[PInt 5]" "[(''g'', PInt 5)]" copy_copy] 1 2 3 4
  obtain msg where "EnforcementWrapper copy_copy consume (consume_conditions [''zzz'']) [PInt 5] (idle {})
     = (Inl (Exn PostconditionFailed msg), idle {})" by blast
  moreover have "EnforcementWrapper copy_copy consume (consume_conditions [''zzz'']) [PInt 5] (idle {})
     = (Inl (Exn PostconditionFailed ''Unrecognized mutable argument(s) in postcondition: \"zzz\"''), idle {})"
    by (simp add: EnforcementWrapper_def consume_def consume_conditions_def bind1_def idle_def
        unrecognized_mutable_def)
  ultimately show ?thesis using 1 by simp
qed

text \<open>
  C8 as stated fails on an argument that cannot be copied: the name \<^verbatim>\<open>zzz\<close> declared
  mutable is not bound, and the call raises the \<^verbatim>\<open>TypeError\<close> of \<^verbatim>\<open>copy.copy\<close>.
\<close>

theorem uncopyable_argument_precedes_mutable_check:
  "fn_id consume \<notin> fns_enforcing (idle {}) \<and>
   sig (consume_conditions [''zzz'']) [PGenerator] = Inr [(''g'', PGenerator)] \<and>
   \<not> set (mutable_args (consume_conditions [''zzz''])) \<subseteq> fst ` set [(''g'', PGenerator)] \<and>
   EnforcementWrapper copy_copy consume (consume_conditions [''zzz'']) [PGenerator] (idle {})
     = (Inl (Exn TypeError ''cannot pickle generator object''), idle {})"
  by (simp add: EnforcementWrapper_def consume_def consume_conditions_def bind1_def idle_def)









lemma mro_BaseException: "mro BaseException = [BaseException]"
  by (simp add: mro.simps)

lemma mro_PreconditionFailed: "mro PreconditionFailed = [PreconditionFailed, BaseException]"
  by (simp add: mro.simps)

lemma mro_PostconditionFailed: "mro PostconditionFailed = [PostconditionFailed, BaseException]"
  by (simp add: mro.simps)

lemma mro_Exception: "mro Exception = [Exception, BaseException]"
  by (simp add: mro.simps)

lemma issubclass_base: "base c = Some b \<Longrightarrow> issubclass c d \<longleftrightarrow> d = c \<or> issubclass b d"
  by (subst issubclass_def, subst mro.simps) (auto simp: issubclass_def)

lemma subclass_of_Exception:
  "issubclass h Exception \<Longrightarrow> h \<noteq> BaseException \<and> h \<noteq> PreconditionFailed \<and> h \<noteq> PostconditionFailed"
  by (auto simp: issubclass_def mro_BaseException mro_PreconditionFailed mro_PostconditionFailed)

text \<open>
  C10. \<^verbatim>\<open>PreconditionFailed\<close> and \<^verbatim>\<open>PostconditionFailed\<close> derive from
  \<^verbatim>\<open>BaseException\<close> and are not subclasses of \<^verbatim>\<open>Exception\<close>; a handler catches one
  of them exactly when it names that class or \<^verbatim>\<open>BaseException\<close>; so a
  \<^verbatim>\<open>try\<close> whose handler names \<^verbatim>\<open>Exception\<close> or a subclass of it lets a contract
  failure through unchanged.
\<close>
theorem contract_failures_escape_Exception_handlers:
  "base PreconditionFailed = Some BaseException \<and> base PostconditionFailed = Some BaseException \<and>
   \<not> issubclass PreconditionFailed Exception \<and> \<not> issubclass PostconditionFailed Exception \<and>
   (issubclass PreconditionFailed h \<longleftrightarrow> h = PreconditionFailed \<or> h = BaseException) \<and>
   (issubclass PostconditionFailed h \<longleftrightarrow> h = PostconditionFailed \<or> h = BaseException) \<and>
   (issubclass h Exception \<and> exn_class e \<in> {PreconditionFailed, PostconditionFailed} \<and> body s = (Inl e, s1)
      \<longrightarrow> try_except body h handler s = (Inl e, s1))"
proof -
  have "issubclass h Exception \<Longrightarrow> exn_class e \<in> {PreconditionFailed, PostconditionFailed} \<Longrightarrow>
        \<not> issubclass (exn_class e) h"
    using subclass_of_Exception [of h]
    by (auto simp: issubclass_def mro_PreconditionFailed mro_PostconditionFailed)
  then show ?thesis
    by (auto simp: try_except_def issubclass_def mro_PreconditionFailed mro_PostconditionFailed)
qed

theorem contract_failures_escape_Exception_handlers_witness:
  "issubclass Exception Exception \<and>
   try_except (EnforcementWrapper copy_copy half half_conditions [PInt 3]) Exception
       (\<lambda>e s. (Inr PNone, s)) (idle {})
     = (Inl (Exn PreconditionFailed ''Precondition failed at half.py:3''), idle {})"
proof -
  have 1: "issubclass Exception Exception" by (simp add: issubclass_def mro_Exception)
  have 2: "EnforcementWrapper copy_copy half half_conditions [PInt 3] (idle {})
            = (Inl (Exn PreconditionFailed ''Precondition failed at half.py:3''), idle {})"
    by (simp add: EnforcementWrapper_def half_def half_conditions_def bind1_def idle_def
        pre_phase_def currently_enforcing_def pre_args_def arguments_def x_is_even_def
        precondition_failed_def string_of_nat.simps)
  from contract_failures_escape_Exception_handlers
         [where h = Exception and e = "Exn PreconditionFailed ''Precondition failed at half.py:3''"
            and body = "EnforcementWrapper copy_copy half half_conditions [PInt 3]"
            and s = "idle {}" and ?s1.0 = "idle {}" and handler = "\<lambda>e s. (Inr PNone, s)"] 1 2
  show ?thesis by simp
qed


section \<open>Properties of the enforcement scope\<close>

lemma obj_at_append: "r < length h \<Longrightarrow> obj_at (h @ [ob]) r = obj_at h r"
  by (simp add: obj_at_def nth_append)

lemma obj_at_update: "obj_at (h[i := ob]) r = (if r = i \<and> i < length h then ob else obj_at h r)"
  by (simp add: obj_at_def)

lemma refs_of_Plain_None [simp]: "refs_of (Plain None) = []"
  by (simp add: refs_of_def)

lemma closed_refs:
  assumes "closed h" and "r \<in> set (refs_of (obj_at h x))"
  shows "r < length h"
proof (cases "x < length h")
  case True
  then have "obj_at h x \<in> set h" by (simp add: obj_at_def)
  with assms show ?thesis unfolding closed_def by blast
next
  case False
  with assms(2) show ?thesis by (simp add: obj_at_def)
qed

lemma registry_refs:
  assumes "registry ob = Some reg" and "f \<in> snd ` set reg"
  shows "f \<in> set (refs_of ob)"
  using assms by (auto simp add: refs_of_def)

lemma closed_registry:
  assumes "closed h" and "registry (obj_at h x) = Some reg" and "(t, f) \<in> set reg"
  shows "f < length h"
proof -
  have "f \<in> snd ` set reg" using assms(3) by (simp add: rev_image_eqI)
  with assms(2) have "f \<in> set (refs_of (obj_at h x))" by (rule registry_refs)
  with assms(1) show ?thesis by (rule closed_refs)
qed

lemma closed_attrs:
  assumes "closed h" and "obj_at h x = Class attrs" and "(k, m) \<in> set attrs"
  shows "m < length h"
proof -
  have "m \<in> snd ` set attrs" using assms(3) by (simp add: rev_image_eqI)
  then have "m \<in> set (refs_of (obj_at h x))" using assms(2) by (simp add: refs_of_def)
  with assms(1) show ?thesis by (rule closed_refs)
qed

lemma closed_append:
  "closed h \<Longrightarrow> \<forall>r \<in> set (refs_of ob). r \<le> length h \<Longrightarrow> closed (h @ [ob])"
  by (fastforce simp: closed_def)

lemma closed_update:
  "closed h \<Longrightarrow> \<forall>r \<in> set (refs_of ob). r < length h \<Longrightarrow> closed (h[i := ob])"
  by (auto simp: closed_def dest!: set_update_subset_insert [THEN subsetD])

lemma update_values: "snd ` set (AList.update k v al) \<subseteq> insert v (snd ` set al)"
  by (induction al) auto

text \<open>A change of the heap alone.\<close>

lemma heap_step:
  assumes "consistent P n0 st" and "length (heap st) \<le> length h'" and "closed h'"
  shows "consistent P n0 (st\<lparr>heap := h'\<rparr>)"
proof -
  have "originals_ok n0 (st\<lparr>heap := h'\<rparr>)"
    using assms(1,2) unfolding consistent_def originals_ok_def
    by simp (meson less_le_trans)
  then show ?thesis
    using assms by (simp add: consistent_def maps_agree_def cache_ok_def)
qed

lemma heap_step_extends:
  assumes "length (heap st) \<le> length h'"
    and "\<forall>r < n0. registry (obj_at h' r) = registry (obj_at (heap st) r)"
  shows "extends n0 st (st\<lparr>heap := h'\<rparr>)"
  using assms by (simp add: extends_def)

lemma extends_refl: "extends n0 st st"
  by (simp add: extends_def)

lemma extends_trans: "extends n0 st st1 \<Longrightarrow> extends n0 st1 st2 \<Longrightarrow> extends n0 st st2"
  by (auto simp: extends_def)

lemma same_maps_refl: "same_maps st st"
  by (simp add: same_maps_def)

lemma same_maps_trans: "same_maps st st1 \<Longrightarrow> same_maps st1 st2 \<Longrightarrow> same_maps st st2"
  by (simp add: same_maps_def)

lemma alloc_step:
  assumes "consistent P n0 st" and "\<forall>r \<in> set (refs_of ob). r \<le> length (heap st)"
    and "alloc ob st = (w, st')"
  shows "consistent P n0 st' \<and> extends n0 st st' \<and> same_maps st st' \<and> w = length (heap st)
         \<and> length (heap st') = Suc (length (heap st)) \<and> obj_at (heap st') w = ob"
proof -
  from assms(3) have st': "st' = st\<lparr>heap := heap st @ [ob]\<rparr>" and w: "w = length (heap st)"
    by (auto simp: alloc_def)
  have c: "closed (heap st @ [ob])"
    using assms(1,2) by (auto simp: consistent_def intro: closed_append)
  have "consistent P n0 st'" unfolding st' using assms(1) c by (intro heap_step) auto
  moreover have "extends n0 st st'" unfolding st'
    using assms(1) by (intro heap_step_extends) (auto simp: consistent_def obj_at_append)
  moreover have "same_maps st st'" by (simp add: st' same_maps_def)
  moreover have "obj_at (heap st') w = ob" by (simp add: st' w obj_at_def)
  ultimately show ?thesis using w st' by simp
qed

lemma setattr_step:
  assumes "consistent P n0 st" and "v < length (heap st)"
  shows "consistent P n0 (setattr cls name v st) \<and> extends n0 st (setattr cls name v st)
         \<and> same_maps st (setattr cls name v st)
         \<and> length (heap (setattr cls name v st)) = length (heap st)"
proof (cases "obj_at (heap st) cls")
  case (Class attrs)
  let ?ob = "Class (AList.update name v attrs) :: ('a, 'b, 'c) conditions obj"
  have st': "setattr cls name v st = st\<lparr>heap := (heap st)[cls := ?ob]\<rparr>"
    by (simp add: setattr_def Class)
  have cl: "closed (heap st)" using assms(1) by (simp add: consistent_def)
  have "\<forall>r \<in> set (refs_of ?ob). r < length (heap st)"
    using update_values [of name v attrs] assms(2) closed_attrs [OF cl Class]
    by (fastforce simp: refs_of_def)
  then have c: "closed ((heap st)[cls := ?ob])" using cl by (rule closed_update [rotated])
  have "consistent P n0 (setattr cls name v st)"
    unfolding st' using assms(1) c by (intro heap_step) auto
  moreover have "extends n0 st (setattr cls name v st)" unfolding st'
    using Class by (intro heap_step_extends) (auto simp: obj_at_update)
  ultimately show ?thesis by (simp add: st' same_maps_def)
qed (simp_all add: setattr_def assms extends_refl same_maps_refl)

lemma register_step:
  assumes "consistent P n0 st" and "f < length (heap st)" and "n0 \<le> wrapped"
  shows "consistent P n0 (register wrapped ty f st) \<and> extends n0 st (register wrapped ty f st)
         \<and> same_maps st (register wrapped ty f st)
         \<and> length (heap (register wrapped ty f st)) = length (heap st)"
proof (cases "obj_at (heap st) wrapped")
  case (Dispatcher reg)
  let ?ob = "Dispatcher (AList.update ty f reg) :: ('a, 'b, 'c) conditions obj"
  have st': "register wrapped ty f st = st\<lparr>heap := (heap st)[wrapped := ?ob]\<rparr>"
    by (simp add: register_def Dispatcher)
  have cl: "closed (heap st)" using assms(1) by (simp add: consistent_def)
  have "registry (obj_at (heap st) wrapped) = Some reg" by (simp add: Dispatcher)
  from closed_registry [OF cl this]
  have "\<forall>r \<in> set (refs_of ?ob). r < length (heap st)"
    using update_values [of ty f reg] assms(2) by (fastforce simp: refs_of_def)
  then have c: "closed ((heap st)[wrapped := ?ob])" using cl by (rule closed_update [rotated])
  have "consistent P n0 (register wrapped ty f st)"
    unfolding st' using assms(1) c by (intro heap_step) auto
  moreover have "extends n0 st (register wrapped ty f st)" unfolding st'
    using assms(3) by (intro heap_step_extends) (auto simp: obj_at_update)
  ultimately show ?thesis by (simp add: st' same_maps_def)
qed (simp_all add: register_def assms extends_refl same_maps_refl)

lemma maps_agree_add:
  assumes "maps_agree st" and "wrapper_map st fn = None" and "original_map st w = None"
  shows "maps_agree (st\<lparr>heap := h', wrapper_map := (wrapper_map st)(fn \<mapsto> w),
                         original_map := (original_map st)(w \<mapsto> fn)\<rparr>)"
  using assms unfolding maps_agree_def by (simp) (metis option.distinct(1))

lemma refs_of_Wrapper: "set (refs_of (Wrapper i c (registry ob))) \<subseteq> set (refs_of ob)"
  by (cases ob) (auto simp: refs_of_def)

lemma wrap_fn_step:
  assumes inv: "consistent P n0 st" and fn: "fn < length (heap st)"
    and given: "given = None \<or> (\<exists>cls c. given = Some c \<and> (fn, c) \<in> set (methods (get_class_conditions P cls)))"
    and run: "wrap_fn P fn given st = (w, st')"
  shows "consistent P n0 st' \<and> extends n0 st st' \<and> w < length (heap st')
         \<and> (w \<noteq> fn \<longrightarrow> original_map st' w = Some fn)
         \<and> (\<not> carries_conditions P fn \<longrightarrow> w = fn \<and> heap st' = heap st)"
proof -
  from inv have n0: "n0 \<le> length (heap st)" and cl: "closed (heap st)"
    and oo: "originals_ok n0 st" and ma: "maps_agree st" and co: "cache_ok P st"
    by (simp_all add: consistent_def)
  show ?thesis
  proof (cases "wrapper_map st fn")
    case (Some w0)
    with run have eq: "w = w0" "st' = st" by (simp_all add: wrap_fn_def)
    from Some ma have o: "original_map st w0 = Some fn" by (simp add: maps_agree_def)
    with oo have "w0 < length (heap st)" by (auto simp: originals_ok_def)
    moreover from Some co have "\<not> carries_conditions P fn \<longrightarrow> w0 = fn"
      by (auto simp: cache_ok_def)
    ultimately show ?thesis using eq inv o by (simp add: extends_refl)
  next
    case None
    show ?thesis
    proof (cases "is_enforcement_wrapper st fn")
      case True
      with None run have "w = fn" "st' = st" by (simp_all add: wrap_fn_def)
      then show ?thesis using inv fn by (simp add: extends_refl)
    next
      case False
      then have ofn: "original_map st fn = None" by (simp add: is_enforcement_wrapper_def)
      define c where "c = (case given of Some c \<Rightarrow> c | None \<Rightarrow> get_fn_conditions P fn)"
      have carries: "has_any c \<Longrightarrow> carries_conditions P fn"
        using given by (auto simp: c_def carries_conditions_def)
      show ?thesis
      proof (cases "has_any c")
        case no: False
        from None False no run have w: "w = fn"
          and st': "st' = st\<lparr>heap := heap st, wrapper_map := (wrapper_map st)(fn \<mapsto> fn),
                              original_map := (original_map st)(fn \<mapsto> fn)\<rparr>"
          by (auto simp: wrap_fn_def c_def)
        have 1: "originals_ok n0 st'" using oo fn by (auto simp: st' originals_ok_def)
        have 2: "maps_agree st'" unfolding st' using ma None ofn by (rule maps_agree_add)
        have 3: "cache_ok P st'" using co by (auto simp: st' cache_ok_def)
        have 4: "extends n0 st st'" using ofn by (auto simp: st' extends_def)
        from 1 2 3 4 n0 cl fn show ?thesis by (simp add: consistent_def w st')
      next
        case yes: True
        let ?ob = "Wrapper (interceptor st fn) c (registry (obj_at (heap st) fn))"
        from None False yes run have w: "w = length (heap st)"
          and st': "st' = st\<lparr>heap := heap st @ [?ob], wrapper_map := (wrapper_map st)(fn \<mapsto> w),
                              original_map := (original_map st)(w \<mapsto> fn)\<rparr>"
          by (auto simp: wrap_fn_def c_def alloc_def)
        have ow: "original_map st w = None"
        proof (cases "original_map st w")
          case (Some f)
          with oo have "w < length (heap st)" unfolding originals_ok_def by blast
          then show ?thesis by (simp add: w)
        qed simp
        have "\<forall>r \<in> set (refs_of ?ob). r \<le> length (heap st)"
          using closed_refs [OF cl, of _ fn] refs_of_Wrapper [of "interceptor st fn" c "obj_at (heap st) fn"]
          by (meson less_imp_le subsetD)
        with cl have 0: "closed (heap st @ [?ob])" by (rule closed_append)
        have 1: "originals_ok n0 st'" using oo fn n0 by (auto simp: st' w originals_ok_def less_Suc_eq)
        have 2: "maps_agree st'" unfolding st' using ma None ow by (rule maps_agree_add)
        have 3: "cache_ok P st'" using co carries [OF yes] by (auto simp: st' cache_ok_def)
        have 4: "extends n0 st st'" using ow n0 by (auto simp: st' extends_def obj_at_append)
        from 0 1 2 3 4 n0 fn carries [OF yes] show ?thesis by (simp add: consistent_def w st')
      qed
    qed
  qed
qed

lemma wrap_fn_op_sound: "sound_transformer P n0 (wrap_fn_op P)"
  unfolding sound_transformer_def
proof (intro allI impI)
  fix f st r st'
  assume a: "consistent P n0 st \<and> f < length (heap st) \<and> wrap_fn_op P f st = (r, st')"
  then obtain w where w: "wrap_fn P f None st = (w, st')" and r: "r = Inr w"
    by (auto simp: wrap_fn_op_def split: prod.splits)
  from a wrap_fn_step [OF _ _ _ w, of n0] r
  show "consistent P n0 st' \<and> extends n0 st st' \<and> (\<forall>w. r = Inr w \<longrightarrow> w < length (heap st'))"
    by simp
qed

lemma extends_length: "extends n0 st st' \<Longrightarrow> x < length (heap st) \<Longrightarrow> x < length (heap st')"
  by (simp add: extends_def)

lemma register_all_step:
  assumes "sound_transformer P n0 t" and "consistent P n0 st"
    and "\<forall>f \<in> snd ` set rest. f < length (heap st)" and "n0 \<le> wrapped"
    and "register_all t wrapped rest st = (r, st')"
  shows "consistent P n0 st' \<and> extends n0 st st'"
  using assms(2,3,5)
proof (induction rest arbitrary: st)
  case Nil
  then show ?case by (simp add: extends_refl)
next
  case (Cons p rest)
  obtain ty f where p: "p = (ty, f)" by (cases p)
  obtain r1 st1 where t: "t f st = (r1, st1)" by (cases "t f st")
  from Cons.prems(2) p have f: "f < length (heap st)" by simp
  from assms(1) Cons.prems(1) f t
  have 1: "consistent P n0 st1" and 2: "extends n0 st st1"
    and 3: "\<And>w. r1 = Inr w \<Longrightarrow> w < length (heap st1)"
    unfolding sound_transformer_def by blast+
  show ?case
  proof (cases r1)
    case (Inl e)
    with Cons.prems(3) p t have "st' = st1" by simp
    with 1 2 show ?thesis by simp
  next
    case (Inr f')
    let ?st2 = "register wrapped ty f' st1"
    from register_step [OF 1 3 [OF Inr] assms(4), of ty]
    have 4: "consistent P n0 ?st2" and 5: "extends n0 st1 ?st2"
      and 6: "length (heap ?st2) = length (heap st1)" by simp_all
    from Cons.prems(3) p t Inr have run: "register_all t wrapped rest ?st2 = (r, st')" by simp
    have "\<forall>f \<in> snd ` set rest. f < length (heap ?st2)"
      using Cons.prems(2) 2 6 by (auto simp: extends_def)
    from Cons.IH [OF 4 this run] 2 5 show ?thesis by (blast intro: extends_trans)
  qed
qed

lemma transform_step:
  assumes "sound_transformer P n0 t" and "consistent P n0 st"
    and "transform_singledispatch fn t st = (r, st')"
  shows "consistent P n0 st' \<and> extends n0 st st'
         \<and> (\<forall>w. r = Inr w \<longrightarrow> w < length (heap st') \<and> length (heap st) \<le> w)"
proof (cases "registry (obj_at (heap st) fn)")
  case None
  with assms(3) have "st' = st" "\<exists>e. r = Inl e" by (auto simp: transform_singledispatch_def)
  with assms(2) show ?thesis by (auto simp: extends_refl)
next
  case (Some reg)
  from assms(2) have cl: "closed (heap st)" and n0: "n0 \<le> length (heap st)"
    by (simp_all add: consistent_def)
  show ?thesis
  proof (cases reg)
    case Nil
    with Some assms(3) have "st' = st" "\<exists>e. r = Inl e" by (auto simp: transform_singledispatch_def)
    with assms(2) show ?thesis by (auto simp: extends_refl)
  next
    case (Cons p rest)
    obtain ty0 f0 where p: "p = (ty0, f0)" by (cases p)
    have reg: "registry (obj_at (heap st) fn) = Some ((ty0, f0) # rest)"
      using Some Cons p by simp
    have f0: "f0 < length (heap st)" using closed_registry [OF cl reg, of ty0 f0] by simp
    have rest: "\<forall>f \<in> snd ` set rest. f < length (heap st)"
      using closed_registry [OF cl reg] by (auto simp del: set_ConsD) blast
    obtain r1 st1 where t: "t f0 st = (r1, st1)" by (cases "t f0 st")
    from assms(1,2) f0 t
    have 1: "consistent P n0 st1" and 2: "extends n0 st st1"
      and 3: "\<And>w. r1 = Inr w \<Longrightarrow> w < length (heap st1)"
      unfolding sound_transformer_def by blast+
    show ?thesis
    proof (cases r1)
      case (Inl e)
      with assms(3) reg t have "st' = st1" "r = Inl e"
        by (simp_all add: transform_singledispatch_def)
      with 1 2 show ?thesis by simp
    next
      case (Inr f)
      obtain wrapped st2 where a: "alloc (Dispatcher [(object_type, f)]) st1 = (wrapped, st2)"
        by (cases "alloc (Dispatcher [(object_type, f)]) st1 :: ref \<times> ('a, 'b, 'c) scope")
      have "\<forall>r \<in> set (refs_of (Dispatcher [(object_type, f)] :: ('a, 'b, 'c) conditions obj)).
              r \<le> length (heap st1)"
        using 3 [OF Inr] by (simp add: refs_of_def)
      from alloc_step [OF 1 this a]
      have 4: "consistent P n0 st2" and 5: "extends n0 st1 st2" and w: "wrapped = length (heap st1)"
        and l: "length (heap st2) = Suc (length (heap st1))" by simp_all
      obtain r3 st3 where ra: "register_all t wrapped rest st2 = (r3, st3)"
        by (cases "register_all t wrapped rest st2")
      have le: "length (heap st) \<le> length (heap st1)" using 2 by (simp add: extends_def)
      have "\<forall>f \<in> snd ` set rest. f < length (heap st2)" using rest le l by auto
      moreover have "n0 \<le> wrapped" using n0 le w by simp
      ultimately have 6: "consistent P n0 st3" and 7: "extends n0 st2 st3"
        using register_all_step [OF assms(1) 4 _ _ ra] by simp_all
      have res: "st' = st3" "r = (case r3 of Inl e \<Rightarrow> Inl e | Inr u \<Rightarrow> Inr wrapped)"
        using assms(3) reg t Inr a ra
        by (auto simp: transform_singledispatch_def split: sum.splits)
      have "wrapped < length (heap st3)" using w l 7 by (simp add: extends_def)
      moreover have "length (heap st) \<le> wrapped" using le w by simp
      moreover have "extends n0 st st3" using 2 5 7 by (blast intro: extends_trans)
      ultimately show ?thesis using 6 res by (auto split: sum.splits)
    qed
  qed
qed

lemma wrap_method_step:
  assumes "consistent P n0 st" and "snd member < length (heap st)"
  shows "consistent P n0 (wrap_method P cls (get_class_conditions P c0) member st)
         \<and> extends n0 st (wrap_method P cls (get_class_conditions P c0) member st)"
proof (cases "map_of (rev (methods (get_class_conditions P c0))) (snd member)")
  case None
  with assms(1) show ?thesis by (simp add: wrap_method_def extends_refl)
next
  case (Some c)
  then have m: "(snd member, c) \<in> set (methods (get_class_conditions P c0))"
    by (auto dest: map_of_SomeD)
  obtain w st1 where wf: "wrap_fn P (snd member) (Some c) st = (w, st1)"
    by (cases "wrap_fn P (snd member) (Some c) st")
  have "Some c = None \<or> (\<exists>cls c'. Some c = Some c' \<and> (snd member, c') \<in> set (methods (get_class_conditions P cls)))"
    using m by blast
  from wrap_fn_step [OF assms(1,2) this wf]
  have 1: "consistent P n0 st1" and 2: "extends n0 st st1" and 3: "w < length (heap st1)"
    by simp_all
  from setattr_step [OF 1 3, of cls "fst member"] 2
  have "consistent P n0 (setattr cls (fst member) w st1) \<and> extends n0 st (setattr cls (fst member) w st1)"
    by (blast intro: extends_trans)
  then show ?thesis using Some wf by (simp add: wrap_method_def)
qed

lemma fold_step:
  assumes step: "\<And>m st. consistent P n0 st \<Longrightarrow> snd m < length (heap st) \<Longrightarrow>
                   consistent P n0 (g m st) \<and> extends n0 st (g m st)"
    and "consistent P n0 st" and "\<forall>m \<in> set ms. snd m < length (heap st)"
  shows "consistent P n0 (fold g ms st) \<and> extends n0 st (fold g ms st)"
  using assms(2,3)
proof (induction ms arbitrary: st)
  case Nil
  then show ?case by (simp add: extends_refl)
next
  case (Cons m ms)
  from step [OF Cons.prems(1), of m] Cons.prems(2)
  have 1: "consistent P n0 (g m st)" and 2: "extends n0 st (g m st)" by simp_all
  have "\<forall>x \<in> set ms. snd x < length (heap (g m st))"
    using Cons.prems(2) extends_length [OF 2] by simp
  from Cons.IH [OF 1 this] 2 show ?case by (auto intro: extends_trans)
qed

lemma getmembers_refs:
  assumes "closed (heap st)" and "m \<in> set (getmembers_isfunction st cls)"
  shows "snd m < length (heap st)"
proof (cases "obj_at (heap st) cls")
  case (Class attrs)
  with assms(2) have "(fst m, snd m) \<in> set attrs" by (auto simp: getmembers_isfunction_def)
  with assms(1) Class show ?thesis by (rule closed_attrs)
qed (use assms(2) in \<open>simp_all add: getmembers_isfunction_def\<close>)

lemma wrap_class_step:
  assumes "consistent P n0 st"
  shows "consistent P n0 (wrap_class P cls (get_class_conditions P c0) st)
         \<and> extends n0 st (wrap_class P cls (get_class_conditions P c0) st)"
  unfolding wrap_class_def
proof (rule fold_step)
  show "consistent P n0 st" by fact
  show "\<forall>m \<in> set (getmembers_isfunction st cls). snd m < length (heap st)"
    using assms getmembers_refs by (auto simp: consistent_def)
qed (rule wrap_method_step)

lemma update_lookup: "map_of (AList.update k v al) k' = (if k' = k then Some v else map_of al k')"
  by (simp add: update_conv')

lemma update_keys_same: "k \<in> fst ` set al \<Longrightarrow> map fst (AList.update k v al) = map fst al"
  by (induction al) auto

text \<open>One item of the activation loop.\<close>

lemma enter_item:
  assumes inv: "consistent P n0 st" and v: "v < length (heap st)"
    and run: "enter_items P ((k, v) # rest) ne st = (r, st')"
  shows "\<exists>st1 ne1. consistent P n0 st1 \<and> extends n0 st st1 \<and>
           (ne1 = ne \<or>
            (\<exists>w. ne1 = AList.update k w ne \<and> w < length (heap st1) \<and>
                 (is_singledispatcher (obj_at (heap st) v) \<or>
                  (original_map st1 w = Some v \<and> carries_conditions P v)))) \<and>
           ((\<exists>e. r = Inl e \<and> st' = st1) \<or> enter_items P rest ne1 st1 = (r, st'))"
proof (cases "is_function_or_builtin (obj_at (heap st) v)")
  case fb: True
  show ?thesis
  proof (cases "is_singledispatcher (obj_at (heap st) v)")
    case sd: True
    obtain r1 st1 where t: "transform_singledispatch v (wrap_fn_op P) st = (r1, st1)"
      by (cases "transform_singledispatch v (wrap_fn_op P) st")
    from transform_step [OF wrap_fn_op_sound inv t]
    have 1: "consistent P n0 st1" and 2: "extends n0 st st1"
      and 3: "\<And>w. r1 = Inr w \<Longrightarrow> w < length (heap st1)" by simp_all
    show ?thesis
    proof (cases r1)
      case (Inl e)
      with run fb sd t have "r = Inl e" "st' = st1" by simp_all
      with 1 2 show ?thesis by blast
    next
      case (Inr w)
      with run fb sd t have "enter_items P rest (AList.update k w ne) st1 = (r, st')" by simp
      with 1 2 3 [OF Inr] sd show ?thesis by blast
    qed
  next
    case nsd: False
    obtain w st1 where wf: "wrap_fn P v None st = (w, st1)" by (cases "wrap_fn P v None st")
    from wrap_fn_step [OF inv v _ wf]
    have 1: "consistent P n0 st1" and 2: "extends n0 st st1" and 3: "w < length (heap st1)"
      and 4: "w \<noteq> v \<Longrightarrow> original_map st1 w = Some v"
      and 5: "\<not> carries_conditions P v \<Longrightarrow> w = v" by simp_all
    show ?thesis
    proof (cases "w = v")
      case True
      with run fb nsd wf have "enter_items P rest ne st1 = (r, st')" by simp
      with 1 2 show ?thesis by blast
    next
      case False
      with run fb nsd wf have "enter_items P rest (AList.update k w ne) st1 = (r, st')" by simp
      moreover from False 4 5 have "original_map st1 w = Some v \<and> carries_conditions P v" by blast
      ultimately show ?thesis using 1 2 3 by blast
    qed
  qed
next
  case nfb: False
  show ?thesis
  proof (cases "is_type (obj_at (heap st) v) \<and> class_has_any (get_class_conditions P v)")
    case True
    let ?st1 = "wrap_class P v (get_class_conditions P v) st"
    from run nfb True have "enter_items P rest ne ?st1 = (r, st')" by simp
    with wrap_class_step [OF inv, of v v] show ?thesis by blast
  next
    case False
    with run nfb have "enter_items P rest ne st = (r, st')" by (auto split: if_splits)
    with inv extends_refl [of n0 st] show ?thesis by blast
  qed
qed

lemma extends_registry:
  "extends n0 st st' \<Longrightarrow> v < n0 \<Longrightarrow>
     is_singledispatcher (obj_at (heap st') v) = is_singledispatcher (obj_at (heap st) v)"
  by (simp add: extends_def is_singledispatcher_def)

lemma extends_original:
  "extends n0 st st' \<Longrightarrow> original_map st w = Some f \<Longrightarrow> original_map st' w = Some f"
  by (simp add: extends_def)

lemma enter_items_step:
  assumes "consistent P n0 st" and "\<forall>v \<in> snd ` set items. v < length (heap st)"
    and "enter_items P items ne st = (r, st')"
  shows "consistent P n0 st' \<and> extends n0 st st'"
  using assms
proof (induction items arbitrary: ne st)
  case Nil
  then show ?case by (simp add: extends_refl)
next
  case (Cons p items)
  obtain k v where p: "p = (k, v)" by (cases p)
  from Cons.prems(2) p have v: "v < length (heap st)" by simp
  from enter_item [OF Cons.prems(1) v Cons.prems(3) [unfolded p]]
  obtain st1 ne1 where 1: "consistent P n0 st1" and 2: "extends n0 st st1"
    and 3: "(\<exists>e. r = Inl e \<and> st' = st1) \<or> enter_items P items ne1 st1 = (r, st')" by blast
  from 3 show ?case
  proof
    assume "\<exists>e. r = Inl e \<and> st' = st1"
    with 1 2 show ?thesis by blast
  next
    assume run: "enter_items P items ne1 st1 = (r, st')"
    have "\<forall>v \<in> snd ` set items. v < length (heap st1)"
      using Cons.prems(2) extends_length [OF 2] by simp
    from Cons.IH [OF 1 this run] 2 show ?thesis by (blast intro: extends_trans)
  qed
qed

lemma enter_items_bindings:
  assumes "consistent P n0 st" and "\<forall>v \<in> snd ` set items. v < length (heap st)"
    and "distinct (map fst items)" and "fst ` set items \<subseteq> fst ` set ne"
    and "\<forall>v \<in> snd ` set ne. v < length (heap st)"
    and "enter_items P items ne st = (Inr ne', st')"
  shows "map fst ne' = map fst ne \<and>
         (\<forall>v \<in> snd ` set ne'. v < length (heap st')) \<and>
         (\<forall>k. k \<notin> fst ` set items \<longrightarrow> map_of ne' k = map_of ne k) \<and>
         (\<forall>(k, v) \<in> set items.
            v < n0 \<and> \<not> is_singledispatcher (obj_at (heap st) v) \<and> map_of ne k = Some v \<longrightarrow>
            (\<exists>b. map_of ne' k = Some b \<and> (b = v \<or> original_map st' b = Some v)
                 \<and> (\<not> carries_conditions P v \<longrightarrow> b = v)))"
  using assms
proof (induction items arbitrary: ne st)
  case Nil
  then show ?case by simp
next
  case (Cons p items)
  obtain k v where p: "p = (k, v)" by (cases p)
  from Cons.prems(2) p have v: "v < length (heap st)" by simp
  from enter_item [OF Cons.prems(1) v Cons.prems(6) [unfolded p]]
  obtain st1 ne1 where 1: "consistent P n0 st1" and 2: "extends n0 st st1"
    and b: "ne1 = ne \<or>
            (\<exists>w. ne1 = AList.update k w ne \<and> w < length (heap st1) \<and>
                 (is_singledispatcher (obj_at (heap st) v) \<or>
                  (original_map st1 w = Some v \<and> carries_conditions P v)))"
    and run: "enter_items P items ne1 st1 = (Inr ne', st')" by blast
  have kin: "k \<in> fst ` set ne" using Cons.prems(4) p by simp
  have keys1: "map fst ne1 = map fst ne" using b update_keys_same [OF kin] by auto
  then have fst1: "fst ` set ne1 = fst ` set ne" by (metis list.set_map)
  have vals1: "\<forall>v \<in> snd ` set ne1. v < length (heap st1)"
  proof
    fix x assume x: "x \<in> snd ` set ne1"
    from b show "x < length (heap st1)"
    proof
      assume "ne1 = ne"
      with x Cons.prems(5) extends_length [OF 2] show ?thesis by blast
    next
      assume "\<exists>w. ne1 = AList.update k w ne \<and> w < length (heap st1) \<and>
                 (is_singledispatcher (obj_at (heap st) v) \<or>
                  (original_map st1 w = Some v \<and> carries_conditions P v))"
      then obtain w where w: "ne1 = AList.update k w ne" "w < length (heap st1)" by blast
      with x update_values [of k w ne] have "x = w \<or> x \<in> snd ` set ne" by auto
      with w Cons.prems(5) extends_length [OF 2] show ?thesis by blast
    qed
  qed
  have items1: "\<forall>v \<in> snd ` set items. v < length (heap st1)"
    using Cons.prems(2) extends_length [OF 2] by simp
  have d: "distinct (map fst items)" and knot: "k \<notin> fst ` set items"
    using Cons.prems(3) p by simp_all
  have sub: "fst ` set items \<subseteq> fst ` set ne1" using Cons.prems(4) fst1 by simp
  from Cons.IH [OF 1 items1 d sub vals1 run]
  have I1: "map fst ne' = map fst ne1"
    and I2: "\<forall>v \<in> snd ` set ne'. v < length (heap st')"
    and I3: "\<forall>k. k \<notin> fst ` set items \<longrightarrow> map_of ne' k = map_of ne1 k"
    and I4: "\<forall>(k, v) \<in> set items.
            v < n0 \<and> \<not> is_singledispatcher (obj_at (heap st1) v) \<and> map_of ne1 k = Some v \<longrightarrow>
            (\<exists>b. map_of ne' k = Some b \<and> (b = v \<or> original_map st' b = Some v)
                 \<and> (\<not> carries_conditions P v \<longrightarrow> b = v))"
    by blast+
  from enter_items_step [OF 1 items1 run] have 3: "extends n0 st1 st'" by simp
  have other: "\<And>k'. k' \<noteq> k \<Longrightarrow> map_of ne1 k' = map_of ne k'"
    using b by (auto simp: update_lookup)
  have C3: "\<forall>k'. k' \<notin> fst ` set (p # items) \<longrightarrow> map_of ne' k' = map_of ne k'"
    using I3 other p by simp
  have head: "v < n0 \<and> \<not> is_singledispatcher (obj_at (heap st) v) \<and> map_of ne k = Some v \<longrightarrow>
            (\<exists>b. map_of ne' k = Some b \<and> (b = v \<or> original_map st' b = Some v)
                 \<and> (\<not> carries_conditions P v \<longrightarrow> b = v))"
  proof
    assume h: "v < n0 \<and> \<not> is_singledispatcher (obj_at (heap st) v) \<and> map_of ne k = Some v"
    from I3 knot have e: "map_of ne' k = map_of ne1 k" by simp
    from b show "\<exists>b. map_of ne' k = Some b \<and> (b = v \<or> original_map st' b = Some v)
                 \<and> (\<not> carries_conditions P v \<longrightarrow> b = v)"
    proof
      assume "ne1 = ne"
      with e h show ?thesis by simp
    next
      assume "\<exists>w. ne1 = AList.update k w ne \<and> w < length (heap st1) \<and>
                 (is_singledispatcher (obj_at (heap st) v) \<or>
                  (original_map st1 w = Some v \<and> carries_conditions P v))"
      with h obtain w where w: "ne1 = AList.update k w ne" "original_map st1 w = Some v"
        "carries_conditions P v" by blast
      from w(1) e have "map_of ne' k = Some w" by (simp add: update_lookup)
      with w extends_original [OF 3] show ?thesis by blast
    qed
  qed
  have tail: "\<forall>(k', v') \<in> set items.
            v' < n0 \<and> \<not> is_singledispatcher (obj_at (heap st) v') \<and> map_of ne k' = Some v' \<longrightarrow>
            (\<exists>b. map_of ne' k' = Some b \<and> (b = v' \<or> original_map st' b = Some v')
                 \<and> (\<not> carries_conditions P v' \<longrightarrow> b = v'))"
  proof (clarify)
    fix k' v'
    assume m: "(k', v') \<in> set items" and lt: "v' < n0"
      and ns: "\<not> is_singledispatcher (obj_at (heap st) v')" and mo: "map_of ne k' = Some v'"
    from m knot have "k' \<noteq> k" by force
    with mo other have "map_of ne1 k' = Some v'" by simp
    moreover have "\<not> is_singledispatcher (obj_at (heap st1) v')"
      using ns extends_registry [OF 2 lt] by simp
    ultimately show "\<exists>b. map_of ne' k' = Some b \<and> (b = v' \<or> original_map st' b = Some v')
                 \<and> (\<not> carries_conditions P v' \<longrightarrow> b = v')"
      using I4 m lt by blast
  qed
  from I1 keys1 I2 C3 head tail p show ?case by simp
qed

lemma dict_update_map_of: "map_of (dict_update env ne) = map_of env ++ map_of (rev ne)"
  unfolding dict_update_def
proof (induction ne arbitrary: env)
  case Nil
  then show ?case by simp
next
  case (Cons p ne)
  obtain k v where p: "p = (k, v)" by (cases p)
  have "map_of (fold (\<lambda>(k, v). AList.update k v) ne (AList.update k v env))
          = map_of (AList.update k v env) ++ map_of (rev ne)" by (rule Cons.IH)
  also have "\<dots> = map_of env ++ map_of (rev (p # ne))"
    by (auto simp: p update_conv' fun_eq_iff map_add_def split: option.splits)
  finally show ?case by (simp add: p)
qed

lemma map_of_rev_distinct:
  assumes "distinct (map fst xs)"
  shows "map_of (rev xs) = map_of xs"
proof -
  have "distinct (map fst (rev xs))" using assms by (metis distinct_rev rev_map)
  then show ?thesis using assms by (subst map_of_inject_set) simp_all
qed

lemma dict_update_lookup:
  "distinct (map fst ne) \<Longrightarrow> map_of ne k = Some b \<Longrightarrow> map_of (dict_update env ne) k = Some b"
  by (simp add: dict_update_map_of map_of_rev_distinct)

lemma dict_update_values: "snd ` set (dict_update env ne) \<subseteq> snd ` set env \<union> snd ` set ne"
  unfolding dict_update_def
proof (induction ne arbitrary: env)
  case Nil
  then show ?case by simp
next
  case (Cons p ne)
  obtain k v where p: "p = (k, v)" by (cases p)
  from Cons.IH [of "AList.update k v env"] update_values [of k v env]
  show ?case by (auto simp: p)
qed

lemma dict_update_keys:
  "fst ` set ne \<subseteq> fst ` set env \<Longrightarrow> map fst (dict_update env ne) = map fst env"
  unfolding dict_update_def
proof (induction ne arbitrary: env)
  case Nil
  then show ?case by simp
next
  case (Cons p ne)
  obtain k v where p: "p = (k, v)" by (cases p)
  from Cons.prems p have k: "k \<in> fst ` set env" by simp
  have e: "map fst (AList.update k v env) = map fst env" using k by (rule update_keys_same)
  then have "fst ` set (AList.update k v env) = fst ` set env" by (metis list.set_map)
  with Cons.prems have "fst ` set ne \<subseteq> fst ` set (AList.update k v env)" by simp
  from Cons.IH [OF this] e show ?case by (simp add: p)
qed

lemma rebinds_mono:
  assumes "rebinds P n0 st1 st2 env ne" and "extends n0 st0 st1" and "extends n0 st2 st3"
  shows "rebinds P n0 st0 st3 env ne"
  unfolding rebinds_def
proof (intro conjI ballI)
  show "map fst ne = map fst env" using assms(1) by (simp add: rebinds_def)
next
  fix v assume "v \<in> snd ` set ne"
  with assms(1) have "v < length (heap st2)" unfolding rebinds_def by blast
  then show "v < length (heap st3)" by (rule extends_length [OF assms(3)])
next
  fix p assume p: "p \<in> set env"
  obtain k v where kv: "p = (k, v)" by (cases p)
  show "case p of (k, v) \<Rightarrow>
          v < n0 \<and> \<not> is_singledispatcher (obj_at (heap st0) v) \<longrightarrow>
          (\<exists>b. map_of ne k = Some b \<and> (b = v \<or> original_map st3 b = Some v)
               \<and> (\<not> carries_conditions P v \<longrightarrow> b = v))"
    unfolding kv prod.case
  proof
    assume h: "v < n0 \<and> \<not> is_singledispatcher (obj_at (heap st0) v)"
    then have "\<not> is_singledispatcher (obj_at (heap st1) v)"
      using extends_registry [OF assms(2)] by simp
    with assms(1) p kv h obtain b where b: "map_of ne k = Some b"
      "b = v \<or> original_map st2 b = Some v" "\<not> carries_conditions P v \<longrightarrow> b = v"
      unfolding rebinds_def by blast
    from b(2) extends_original [OF assms(3)] have "b = v \<or> original_map st3 b = Some v" by blast
    with b show "\<exists>b. map_of ne k = Some b \<and> (b = v \<or> original_map st3 b = Some v)
               \<and> (\<not> carries_conditions P v \<longrightarrow> b = v)" by blast
  qed
qed

lemma enter_env_rebinds:
  assumes "consistent P n0 st" and "\<forall>v \<in> snd ` set env. v < length (heap st)"
    and "distinct (map fst env)" and "enter_items P env env st = (Inr ne', st')"
  shows "rebinds P n0 st st' env ne'"
proof -
  from enter_items_bindings [OF assms(1,2,3) subset_refl assms(2,4)]
  have 1: "map fst ne' = map fst env" and 2: "\<forall>v \<in> snd ` set ne'. v < length (heap st')"
    and 4: "\<forall>(k, v) \<in> set env.
            v < n0 \<and> \<not> is_singledispatcher (obj_at (heap st) v) \<and> map_of env k = Some v \<longrightarrow>
            (\<exists>b. map_of ne' k = Some b \<and> (b = v \<or> original_map st' b = Some v)
                 \<and> (\<not> carries_conditions P v \<longrightarrow> b = v))"
    by blast+
  have "\<And>k v. (k, v) \<in> set env \<Longrightarrow> map_of env k = Some v"
    using assms(3) by simp
  with 4 have "\<forall>(k, v) \<in> set env.
            v < n0 \<and> \<not> is_singledispatcher (obj_at (heap st) v) \<longrightarrow>
            (\<exists>b. map_of ne' k = Some b \<and> (b = v \<or> original_map st' b = Some v)
                 \<and> (\<not> carries_conditions P v \<longrightarrow> b = v))"
    by blast
  with 1 2 show ?thesis unfolding rebinds_def by blast
qed

lemma enter_envs_step:
  assumes "consistent P n0 st"
    and "\<forall>env \<in> set es. (\<forall>v \<in> snd ` set env. v < length (heap st)) \<and> distinct (map fst env)"
    and "enter_envs P es st = (r, st')"
  shows "consistent P n0 st' \<and> extends n0 st st' \<and>
         (\<forall>nes. r = Inr nes \<longrightarrow> list_all2 (rebinds P n0 st st') es nes)"
  using assms
proof (induction es arbitrary: st r st')
  case Nil
  then show ?case by (auto simp: extends_refl)
next
  case (Cons env es)
  obtain r1 st1 where e1: "enter_items P env env st = (r1, st1)"
    by (cases "enter_items P env env st")
  from Cons.prems(2) have vals: "\<forall>v \<in> snd ` set env. v < length (heap st)"
    and dist: "distinct (map fst env)" by simp_all
  from enter_items_step [OF Cons.prems(1) vals e1]
  have 1: "consistent P n0 st1" and 2: "extends n0 st st1" by simp_all
  show ?case
  proof (cases r1)
    case (Inl e)
    with Cons.prems(3) e1 have "r = Inl e" "st' = st1" by simp_all
    with 1 2 show ?thesis by simp
  next
    case (Inr ne)
    from enter_env_rebinds [OF Cons.prems(1) vals dist e1 [unfolded Inr]]
    have rb: "rebinds P n0 st st1 env ne" .
    obtain r2 st2 where e2: "enter_envs P es st1 = (r2, st2)" by (cases "enter_envs P es st1")
    have "\<forall>env \<in> set es. (\<forall>v \<in> snd ` set env. v < length (heap st1)) \<and> distinct (map fst env)"
      using Cons.prems(2) extends_length [OF 2] by auto
    from Cons.IH [OF 1 this e2]
    have 3: "consistent P n0 st2" and 4: "extends n0 st1 st2"
      and 5: "\<And>nes. r2 = Inr nes \<Longrightarrow> list_all2 (rebinds P n0 st1 st2) es nes" by simp_all
    have st': "st' = st2" and r: "r = (case r2 of Inl e \<Rightarrow> Inl e | Inr nes \<Rightarrow> Inr (ne # nes))"
      using Cons.prems(3) e1 Inr e2 by (auto split: sum.splits)
    have 6: "extends n0 st st2" using 2 4 by (rule extends_trans)
    have "\<forall>nes'. r = Inr nes' \<longrightarrow> list_all2 (rebinds P n0 st st2) (env # es) nes'"
    proof (intro allI impI)
      fix nes' assume "r = Inr nes'"
      with r obtain nes where n: "r2 = Inr nes" "nes' = ne # nes" by (auto split: sum.splits)
      have h: "rebinds P n0 st st2 env ne"
        using rb extends_refl 4 by (rule rebinds_mono)
      have "list_all2 (rebinds P n0 st st2) es nes"
        using 5 [OF n(1)] rebinds_mono [OF _ 2 extends_refl]
        by (auto elim!: list_all2_mono)
      with h n show "list_all2 (rebinds P n0 st st2) (env # es) nes'" by simp
    qed
    with 3 6 st' show ?thesis by simp
  qed
qed

text \<open>Deactivation leaves the two maps alone.\<close>

lemma setattr_same_maps: "same_maps st (setattr cls name v st)"
  by (simp add: setattr_def same_maps_def split: obj.splits)

lemma register_same_maps: "same_maps st (register wrapped ty f st)"
  by (simp add: register_def same_maps_def split: obj.splits)

lemma register_all_same_maps:
  assumes "\<And>f st r st'. t f st = (r, st') \<Longrightarrow> same_maps st st'"
    and "register_all t wrapped rest st = (r, st')"
  shows "same_maps st st'"
  using assms(2)
proof (induction rest arbitrary: st)
  case Nil
  then show ?case by (simp add: same_maps_refl)
next
  case (Cons p rest)
  obtain ty f where p: "p = (ty, f)" by (cases p)
  obtain r1 st1 where t: "t f st = (r1, st1)" by (cases "t f st")
  from assms(1) [OF t] have 1: "same_maps st st1" .
  show ?case
  proof (cases r1)
    case (Inl e)
    with Cons.prems p t 1 show ?thesis by simp
  next
    case (Inr f')
    with Cons.prems p t have "register_all t wrapped rest (register wrapped ty f' st1) = (r, st')"
      by simp
    from Cons.IH [OF this] 1 register_same_maps [of st1 wrapped ty f']
    show ?thesis by (blast intro: same_maps_trans)
  qed
qed

lemma transform_same_maps:
  assumes "\<And>f st r st'. t f st = (r, st') \<Longrightarrow> same_maps st st'"
    and "transform_singledispatch fn t st = (r, st')"
  shows "same_maps st st'"
proof (cases "registry (obj_at (heap st) fn)")
  case None
  with assms(2) show ?thesis by (auto simp: transform_singledispatch_def same_maps_refl)
next
  case (Some reg)
  show ?thesis
  proof (cases reg)
    case Nil
    with Some assms(2) show ?thesis by (auto simp: transform_singledispatch_def same_maps_refl)
  next
    case (Cons p rest)
    obtain ty0 f0 where p: "p = (ty0, f0)" by (cases p)
    have reg: "registry (obj_at (heap st) fn) = Some ((ty0, f0) # rest)"
      using Some Cons p by simp
    obtain r1 st1 where t: "t f0 st = (r1, st1)" by (cases "t f0 st")
    from assms(1) [OF t] have 1: "same_maps st st1" .
    show ?thesis
    proof (cases r1)
      case (Inl e)
      with assms(2) reg t have "st' = st1" by (simp add: transform_singledispatch_def)
      with 1 show ?thesis by simp
    next
      case (Inr f)
      let ?st2 = "st1\<lparr>heap := heap st1 @ [Dispatcher [(object_type, f)]]\<rparr>"
      have 2: "same_maps st1 ?st2" by (simp add: same_maps_def)
      obtain r3 st3 where ra: "register_all t (length (heap st1)) rest ?st2 = (r3, st3)"
        by (cases "register_all t (length (heap st1)) rest ?st2")
      from register_all_same_maps [OF assms(1) ra] have 3: "same_maps ?st2 st3" by simp
      have "st' = st3" using assms(2) reg t Inr ra
        by (auto simp: transform_singledispatch_def alloc_def split: sum.splits)
      with 1 2 3 show ?thesis by (blast intro: same_maps_trans)
    qed
  qed
qed

lemma fold_same_maps:
  assumes "\<And>m st. same_maps st (g m st)"
  shows "same_maps st (fold g ms st)"
proof (induction ms arbitrary: st)
  case Nil
  then show ?case by (simp add: same_maps_refl)
next
  case (Cons m ms)
  from assms [of st m] Cons.IH [of "g m st"] show ?case by (auto intro: same_maps_trans)
qed

lemma unwrap_method_same_maps: "same_maps st (unwrap_method cls m st)"
  by (simp add: unwrap_method_def setattr_same_maps same_maps_refl split: option.splits)

lemma unwrap_class_same_maps: "same_maps st (unwrap_class cls st)"
  unfolding unwrap_class_def by (rule fold_same_maps) (rule unwrap_method_same_maps)

lemma unwrap_same_maps: "unwrap limit v st = (r, st') \<Longrightarrow> same_maps st st'"
proof (induction limit arbitrary: v st r st')
  case 0
  then show ?case by (simp add: same_maps_refl)
next
  case (Suc limit)
  show ?case
  proof (cases "original_map st v")
    case (Some orig)
    with Suc.prems show ?thesis by (simp add: same_maps_refl)
  next
    case None
    show ?thesis
    proof (cases "is_singledispatcher (obj_at (heap st) v)")
      case True
      with None Suc.prems have "transform_singledispatch v (unwrap limit) st = (r, st')" by simp
      then show ?thesis by (rule transform_same_maps [rotated]) (rule Suc.IH)
    next
      case False
      with None Suc.prems show ?thesis
        by (auto simp: same_maps_refl unwrap_class_same_maps split: if_splits)
    qed
  qed
qed

text \<open>Deactivation keeps the invariant.\<close>

lemma unwrap_method_step:
  assumes "consistent P n0 st"
  shows "consistent P n0 (unwrap_method cls m st) \<and> extends n0 st (unwrap_method cls m st)"
proof (cases "original_map st (snd m)")
  case None
  with assms show ?thesis by (simp add: unwrap_method_def extends_refl)
next
  case (Some orig)
  with assms have "orig < length (heap st)" by (auto simp: consistent_def originals_ok_def)
  from setattr_step [OF assms this, of cls "fst m"] Some show ?thesis
    by (simp add: unwrap_method_def)
qed

lemma unwrap_class_step:
  assumes "consistent P n0 st"
  shows "consistent P n0 (unwrap_class cls st) \<and> extends n0 st (unwrap_class cls st)"
  unfolding unwrap_class_def
proof (rule fold_step)
  show "consistent P n0 st" by fact
  show "\<forall>m \<in> set (getmembers_isfunction st cls). snd m < length (heap st)"
    using assms getmembers_refs by (auto simp: consistent_def)
qed (rule unwrap_method_step)

lemma unwrap_sound: "sound_transformer P n0 (unwrap limit)"
proof (induction limit)
  case 0
  show ?case by (simp add: sound_transformer_def extends_refl)
next
  case (Suc limit)
  show ?case unfolding sound_transformer_def
  proof (intro allI impI)
    fix v st r st'
    assume a: "consistent P n0 st \<and> v < length (heap st) \<and> unwrap (Suc limit) v st = (r, st')"
    then have inv: "consistent P n0 st" and v: "v < length (heap st)"
      and run: "unwrap (Suc limit) v st = (r, st')" by simp_all
    show "consistent P n0 st' \<and> extends n0 st st' \<and> (\<forall>w. r = Inr w \<longrightarrow> w < length (heap st'))"
    proof (cases "original_map st v")
      case (Some orig)
      with inv have "orig < length (heap st)" by (auto simp: consistent_def originals_ok_def)
      with Some run inv show ?thesis by (auto simp: extends_refl)
    next
      case None
      show ?thesis
      proof (cases "is_singledispatcher (obj_at (heap st) v)")
        case True
        with None run have "transform_singledispatch v (unwrap limit) st = (r, st')" by simp
        from transform_step [OF Suc.IH inv this] show ?thesis by simp
      next
        case False
        show ?thesis
        proof (cases "is_type (obj_at (heap st) v)")
          case True
          with None False run have "r = Inr v" "st' = unwrap_class v st" by simp_all
          with unwrap_class_step [OF inv, of v] v show ?thesis
            by (auto intro: extends_length)
        next
          case nt: False
          with None False run have "r = Inr v" "st' = st" by simp_all
          with inv v show ?thesis by (simp add: extends_refl)
        qed
      qed
    qed
  qed
qed

lemma unwrap_step:
  assumes "consistent P n0 st" and "v < length (heap st)" and "unwrap limit v st = (r, st')"
  shows "consistent P n0 st' \<and> extends n0 st st' \<and> (\<forall>w. r = Inr w \<longrightarrow> w < length (heap st'))"
  using unwrap_sound [of P n0 limit] assms unfolding sound_transformer_def by blast

lemma unwrap_restores:
  assumes "consistent P n0 st" and "v < n0" and "\<not> is_singledispatcher (obj_at (heap st) v)"
    and "b = v \<or> original_map st b = Some v" and "unwrap limit b st = (Inr u, st')"
  shows "u = v"
proof (cases limit)
  case 0
  with assms(5) show ?thesis by simp
next
  case (Suc l)
  show ?thesis
  proof (cases "original_map st b")
    case (Some x)
    with assms(5) Suc have u: "u = x" by simp
    from assms(4) show ?thesis
    proof
      assume bv: "b = v"
      from assms(1) Some have "b = x \<or> n0 \<le> b" by (auto simp: consistent_def originals_ok_def)
      with assms(2) bv u show ?thesis by simp
    next
      assume "original_map st b = Some v"
      with Some u show ?thesis by simp
    qed
  next
    case None
    with assms(4) have bv: "b = v" by simp
    with None assms(3,5) Suc show ?thesis by (auto split: if_splits)
  qed
qed

lemma same_maps_original: "same_maps st st' \<Longrightarrow> original_map st' = original_map st"
  by (simp add: same_maps_def)

lemma exit_items_step:
  assumes "consistent P n0 st" and "\<forall>v \<in> snd ` set items. v < length (heap st)"
    and "exit_items limit items ne st = (r, st')"
  shows "consistent P n0 st' \<and> extends n0 st st' \<and> same_maps st st'"
  using assms
proof (induction items arbitrary: ne st)
  case Nil
  then show ?case by (simp add: extends_refl same_maps_refl)
next
  case (Cons p items)
  obtain k b where p: "p = (k, b)" by (cases p)
  obtain r1 st1 where u: "unwrap limit b st = (r1, st1)" by (cases "unwrap limit b st")
  from Cons.prems(2) p have b: "b < length (heap st)" by simp
  from unwrap_step [OF Cons.prems(1) b u]
  have 1: "consistent P n0 st1" and 2: "extends n0 st st1" by simp_all
  from unwrap_same_maps [OF u] have 3: "same_maps st st1" .
  show ?case
  proof (cases r1)
    case (Inl e)
    with Cons.prems(3) p u have "st' = st1" by simp
    with 1 2 3 show ?thesis by simp
  next
    case (Inr x)
    with Cons.prems(3) p u have run: "exit_items limit items (AList.update k x ne) st1 = (r, st')"
      by simp
    have "\<forall>v \<in> snd ` set items. v < length (heap st1)"
      using Cons.prems(2) extends_length [OF 2] by simp
    from Cons.IH [OF 1 this run] 2 3 show ?thesis
      by (blast intro: extends_trans same_maps_trans)
  qed
qed

lemma exit_items_bindings:
  assumes "consistent P n0 st" and "\<forall>v \<in> snd ` set items. v < length (heap st)"
    and "distinct (map fst items)" and "fst ` set items \<subseteq> fst ` set ne"
    and "\<forall>v \<in> snd ` set ne. v < length (heap st)"
    and "exit_items limit items ne st = (Inr ne', st')"
  shows "map fst ne' = map fst ne \<and>
         (\<forall>v \<in> snd ` set ne'. v < length (heap st')) \<and>
         (\<forall>k. k \<notin> fst ` set items \<longrightarrow> map_of ne' k = map_of ne k) \<and>
         (\<forall>(k, b) \<in> set items. \<forall>v.
            v < n0 \<and> \<not> is_singledispatcher (obj_at (heap st) v) \<and>
            (b = v \<or> original_map st b = Some v) \<longrightarrow> map_of ne' k = Some v)"
  using assms
proof (induction items arbitrary: ne st)
  case Nil
  then show ?case by simp
next
  case (Cons p items)
  obtain k b where p: "p = (k, b)" by (cases p)
  obtain r1 st1 where u: "unwrap limit b st = (r1, st1)" by (cases "unwrap limit b st")
  from Cons.prems(6) p u obtain x where r1: "r1 = Inr x"
    and run: "exit_items limit items (AList.update k x ne) st1 = (Inr ne', st')"
    by (cases r1) simp_all
  let ?ne1 = "AList.update k x ne"
  from Cons.prems(2) p have b: "b < length (heap st)" by simp
  from unwrap_step [OF Cons.prems(1) b u] r1
  have 1: "consistent P n0 st1" and 2: "extends n0 st st1" and x: "x < length (heap st1)"
    by simp_all
  from unwrap_same_maps [OF u] have 3: "original_map st1 = original_map st"
    by (rule same_maps_original)
  have kin: "k \<in> fst ` set ne" using Cons.prems(4) p by simp
  have keys1: "map fst ?ne1 = map fst ne" using kin by (rule update_keys_same)
  then have fst1: "fst ` set ?ne1 = fst ` set ne" by (metis list.set_map)
  have vals1: "\<forall>v \<in> snd ` set ?ne1. v < length (heap st1)"
  proof
    fix y assume "y \<in> snd ` set ?ne1"
    with update_values [of k x ne] have "y = x \<or> y \<in> snd ` set ne" by auto
    with x Cons.prems(5) extends_length [OF 2] show "y < length (heap st1)" by blast
  qed
  have items1: "\<forall>v \<in> snd ` set items. v < length (heap st1)"
    using Cons.prems(2) extends_length [OF 2] by simp
  have d: "distinct (map fst items)" and knot: "k \<notin> fst ` set items"
    using Cons.prems(3) p by simp_all
  have sub: "fst ` set items \<subseteq> fst ` set ?ne1" using Cons.prems(4) fst1 by simp
  from Cons.IH [OF 1 items1 d sub vals1 run]
  have I1: "map fst ne' = map fst ?ne1"
    and I2: "\<forall>v \<in> snd ` set ne'. v < length (heap st')"
    and I3: "\<forall>k. k \<notin> fst ` set items \<longrightarrow> map_of ne' k = map_of ?ne1 k"
    and I4: "\<forall>(k, b) \<in> set items. \<forall>v.
            v < n0 \<and> \<not> is_singledispatcher (obj_at (heap st1) v) \<and>
            (b = v \<or> original_map st1 b = Some v) \<longrightarrow> map_of ne' k = Some v"
    by blast+
  have C3: "\<forall>k'. k' \<notin> fst ` set (p # items) \<longrightarrow> map_of ne' k' = map_of ne k'"
    using I3 p by (simp add: update_lookup)
  have head: "\<forall>v. v < n0 \<and> \<not> is_singledispatcher (obj_at (heap st) v) \<and>
            (b = v \<or> original_map st b = Some v) \<longrightarrow> map_of ne' k = Some v"
  proof (intro allI impI)
    fix v
    assume h: "v < n0 \<and> \<not> is_singledispatcher (obj_at (heap st) v) \<and>
            (b = v \<or> original_map st b = Some v)"
    from h u r1 have "x = v" using unwrap_restores [OF Cons.prems(1), of v b limit x st1] by simp
    moreover from I3 knot have "map_of ne' k = map_of ?ne1 k" by simp
    ultimately show "map_of ne' k = Some v" by (simp add: update_lookup)
  qed
  have tail: "\<forall>(k', b') \<in> set items. \<forall>v.
            v < n0 \<and> \<not> is_singledispatcher (obj_at (heap st) v) \<and>
            (b' = v \<or> original_map st b' = Some v) \<longrightarrow> map_of ne' k' = Some v"
  proof (clarify)
    fix k' b' v
    assume m: "(k', b') \<in> set items" and lt: "v < n0"
      and ns: "\<not> is_singledispatcher (obj_at (heap st) v)"
      and bo: "b' = v \<or> original_map st b' = Some v"
    have "\<not> is_singledispatcher (obj_at (heap st1) v)"
      using ns extends_registry [OF 2 lt] by simp
    with I4 m lt bo 3 show "map_of ne' k' = Some v" by auto
  qed
  from I1 keys1 I2 C3 head tail p show ?case by simp
qed

lemma restores_mono:
  assumes "restores n0 st1 st2 env ne" and "extends n0 st0 st1" and "same_maps st0 st1"
    and "extends n0 st2 st3"
  shows "restores n0 st0 st3 env ne"
  unfolding restores_def
proof (intro conjI ballI)
  show "map fst ne = map fst env" using assms(1) by (simp add: restores_def)
next
  fix v assume "v \<in> snd ` set ne"
  with assms(1) have "v < length (heap st2)" unfolding restores_def by blast
  then show "v < length (heap st3)" by (rule extends_length [OF assms(4)])
next
  fix p assume p: "p \<in> set env"
  obtain k b where kb: "p = (k, b)" by (cases p)
  show "case p of (k, b) \<Rightarrow> \<forall>v.
          v < n0 \<and> \<not> is_singledispatcher (obj_at (heap st0) v) \<and>
          (b = v \<or> original_map st0 b = Some v) \<longrightarrow> map_of ne k = Some v"
    unfolding kb prod.case
  proof (intro allI impI)
    fix v
    assume h: "v < n0 \<and> \<not> is_singledispatcher (obj_at (heap st0) v) \<and>
          (b = v \<or> original_map st0 b = Some v)"
    then have "\<not> is_singledispatcher (obj_at (heap st1) v)"
      using extends_registry [OF assms(2)] by simp
    moreover have "original_map st1 = original_map st0" using assms(3) by (rule same_maps_original)
    ultimately show "map_of ne k = Some v"
      using assms(1) p kb h unfolding restores_def by auto
  qed
qed

lemma exit_env_restores:
  assumes "consistent P n0 st" and "\<forall>v \<in> snd ` set env. v < length (heap st)"
    and "distinct (map fst env)" and "exit_items limit env env st = (Inr ne', st')"
  shows "restores n0 st st' env ne'"
  using exit_items_bindings [OF assms(1,2,3) subset_refl assms(2,4)]
  unfolding restores_def by blast

lemma exit_envs_step:
  assumes "consistent P n0 st"
    and "\<forall>env \<in> set es. (\<forall>v \<in> snd ` set env. v < length (heap st)) \<and> distinct (map fst env)"
    and "exit_envs limit es st = (r, st')"
  shows "consistent P n0 st' \<and> extends n0 st st' \<and> same_maps st st' \<and>
         (\<forall>nes. r = Inr nes \<longrightarrow> list_all2 (restores n0 st st') es nes)"
  using assms
proof (induction es arbitrary: st r st')
  case Nil
  then show ?case by (auto simp: extends_refl same_maps_refl)
next
  case (Cons env es)
  obtain r1 st1 where e1: "exit_items limit env env st = (r1, st1)"
    by (cases "exit_items limit env env st")
  from Cons.prems(2) have vals: "\<forall>v \<in> snd ` set env. v < length (heap st)"
    and dist: "distinct (map fst env)" by simp_all
  from exit_items_step [OF Cons.prems(1) vals e1]
  have 1: "consistent P n0 st1" and 2: "extends n0 st st1" and s1: "same_maps st st1" by simp_all
  show ?case
  proof (cases r1)
    case (Inl e)
    with Cons.prems(3) e1 have "r = Inl e" "st' = st1" by simp_all
    with 1 2 s1 show ?thesis by simp
  next
    case (Inr ne)
    from exit_env_restores [OF Cons.prems(1) vals dist e1 [unfolded Inr]]
    have rb: "restores n0 st st1 env ne" .
    obtain r2 st2 where e2: "exit_envs limit es st1 = (r2, st2)" by (cases "exit_envs limit es st1")
    have "\<forall>env \<in> set es. (\<forall>v \<in> snd ` set env. v < length (heap st1)) \<and> distinct (map fst env)"
      using Cons.prems(2) extends_length [OF 2] by auto
    from Cons.IH [OF 1 this e2]
    have 3: "consistent P n0 st2" and 4: "extends n0 st1 st2" and s2: "same_maps st1 st2"
      and 5: "\<And>nes. r2 = Inr nes \<Longrightarrow> list_all2 (restores n0 st1 st2) es nes" by simp_all
    have st': "st' = st2" and r: "r = (case r2 of Inl e \<Rightarrow> Inl e | Inr nes \<Rightarrow> Inr (ne # nes))"
      using Cons.prems(3) e1 Inr e2 by (auto split: sum.splits)
    have 6: "extends n0 st st2" using 2 4 by (rule extends_trans)
    have 7: "same_maps st st2" using s1 s2 by (rule same_maps_trans)
    have "\<forall>nes'. r = Inr nes' \<longrightarrow> list_all2 (restores n0 st st2) (env # es) nes'"
    proof (intro allI impI)
      fix nes' assume "r = Inr nes'"
      with r obtain nes where n: "r2 = Inr nes" "nes' = ne # nes" by (auto split: sum.splits)
      have h: "restores n0 st st2 env ne"
        using rb extends_refl same_maps_refl 4 by (rule restores_mono)
      have "list_all2 (restores n0 st st2) es nes"
        using 5 [OF n(1)] restores_mono [OF _ 2 s1 extends_refl]
        by (auto elim!: list_all2_mono)
      with h n show "list_all2 (restores n0 st st2) (env # es) nes'" by simp
    qed
    with 3 6 7 st' show ?thesis by simp
  qed
qed

lemma list_all2_map2:
  assumes "list_all2 R xs ys" and "\<And>x y. x \<in> set xs \<Longrightarrow> R x y \<Longrightarrow> Q x (f x y)"
  shows "list_all2 Q xs (map2 f xs ys)"
  using assms by (induction xs ys rule: list_all2_induct) auto

lemma list_all2_right:
  assumes "list_all2 R xs ys" and "y \<in> set ys"
  shows "\<exists>x \<in> set xs. R x y"
  using assms by (induction xs ys rule: list_all2_induct) auto

lemma rebinds_final:
  assumes "rebinds P n0 st st1 env ne" and "distinct (map fst env)"
    and "\<forall>v \<in> snd ` set env. v < length (heap st1)"
  shows "rebinds P n0 st (st1\<lparr>envs := es'\<rparr>) env (dict_update env ne)"
proof -
  from assms(1) have k: "map fst ne = map fst env"
    and v: "\<forall>v \<in> snd ` set ne. v < length (heap st1)"
    and b: "\<forall>(k, v) \<in> set env.
         v < n0 \<and> \<not> is_singledispatcher (obj_at (heap st) v) \<longrightarrow>
         (\<exists>b. map_of ne k = Some b \<and> (b = v \<or> original_map st1 b = Some v)
              \<and> (\<not> carries_conditions P v \<longrightarrow> b = v))"
    unfolding rebinds_def by blast+
  from k have "fst ` set ne = fst ` set env" by (metis list.set_map)
  then have 1: "map fst (dict_update env ne) = map fst env" by (simp add: dict_update_keys)
  have 2: "\<forall>x \<in> snd ` set (dict_update env ne). x < length (heap st1)"
    using dict_update_values [of env ne] v assms(3) by blast
  have d: "distinct (map fst ne)" using k assms(2) by simp
  have 3: "\<forall>(k, v) \<in> set env.
         v < n0 \<and> \<not> is_singledispatcher (obj_at (heap st) v) \<longrightarrow>
         (\<exists>b. map_of (dict_update env ne) k = Some b \<and> (b = v \<or> original_map st1 b = Some v)
              \<and> (\<not> carries_conditions P v \<longrightarrow> b = v))"
    using b dict_update_lookup [OF d] by fast
  from 1 2 3 show ?thesis unfolding rebinds_def by simp
qed

lemma restores_final:
  assumes "restores n0 st st1 env ne" and "distinct (map fst env)"
    and "\<forall>v \<in> snd ` set env. v < length (heap st1)"
  shows "restores n0 st (st1\<lparr>envs := es'\<rparr>) env (dict_update env ne)"
proof -
  from assms(1) have k: "map fst ne = map fst env"
    and v: "\<forall>v \<in> snd ` set ne. v < length (heap st1)"
    and b: "\<forall>(k, b) \<in> set env. \<forall>v.
         v < n0 \<and> \<not> is_singledispatcher (obj_at (heap st) v) \<and>
         (b = v \<or> original_map st b = Some v) \<longrightarrow> map_of ne k = Some v"
    unfolding restores_def by blast+
  from k have "fst ` set ne = fst ` set env" by (metis list.set_map)
  then have 1: "map fst (dict_update env ne) = map fst env" by (simp add: dict_update_keys)
  have 2: "\<forall>x \<in> snd ` set (dict_update env ne). x < length (heap st1)"
    using dict_update_values [of env ne] v assms(3) by blast
  have d: "distinct (map fst ne)" using k assms(2) by simp
  have 3: "\<forall>(k, b) \<in> set env. \<forall>v.
         v < n0 \<and> \<not> is_singledispatcher (obj_at (heap st) v) \<and>
         (b = v \<or> original_map st b = Some v) \<longrightarrow> map_of (dict_update env ne) k = Some v"
    using b dict_update_lookup [OF d] by fast
  from 1 2 3 show ?thesis unfolding restores_def by simp
qed

lemma consistent_envs: "consistent P n0 (st\<lparr>envs := es'\<rparr>) = consistent P n0 st"
  by (simp add: consistent_def originals_ok_def maps_agree_def cache_ok_def)

lemma envs_fine_prem:
  "envs_fine st \<Longrightarrow>
     \<forall>env \<in> set (envs st). (\<forall>v \<in> snd ` set env. v < length (heap st)) \<and> distinct (map fst env)"
  by (simp add: envs_fine_def envs_ok_def)

lemma envs_fine_extends: "envs_fine st \<Longrightarrow> extends n0 st st' \<Longrightarrow> envs_fine st'"
  unfolding envs_fine_def envs_ok_def extends_def by (metis less_le_trans)

lemma envs_fine_from:
  assumes "envs_fine st"
    and "list_all2 (\<lambda>env env'. map fst env' = map fst env \<and>
                     (\<forall>v \<in> snd ` set env'. v < length (heap st'))) (envs st) (envs st')"
  shows "envs_fine st'"
  unfolding envs_fine_def envs_ok_def
proof (intro conjI ballI)
  fix env' v assume e: "env' \<in> set (envs st')" and v: "v \<in> snd ` set env'"
  from list_all2_right [OF assms(2) e] v show "v < length (heap st')" by blast
next
  fix env' assume e: "env' \<in> set (envs st')"
  from list_all2_right [OF assms(2) e] obtain env where "env \<in> set (envs st)"
    "map fst env' = map fst env" by blast
  with assms(1) show "distinct (map fst env')" by (simp add: envs_fine_def)
qed

lemma enter_scope_step:
  assumes "consistent P n0 st" and "envs_fine st" and "enter P st = (r, st')"
  shows "consistent P n0 st' \<and> envs_fine st' \<and> extends n0 st (st'\<lparr>envs := envs st\<rparr>) \<and>
         (r = Inr () \<longrightarrow> list_all2 (rebinds P n0 st st') (envs st) (envs st'))"
proof -
  obtain r1 st1 where e: "enter_envs P (envs st) st = (r1, st1)"
    by (cases "enter_envs P (envs st) st")
  from enter_envs_step [OF assms(1) envs_fine_prem [OF assms(2)] e]
  have 1: "consistent P n0 st1" and 2: "extends n0 st st1"
    and 3: "\<And>nes. r1 = Inr nes \<Longrightarrow> list_all2 (rebinds P n0 st st1) (envs st) nes" by simp_all
  have es: "envs st1 = envs st" using 2 by (simp add: extends_def)
  have st1: "st1\<lparr>envs := envs st\<rparr> = st1" using es by simp
  show ?thesis
  proof (cases r1)
    case (Inl x)
    with assms(3) e have "st' = st1" "r = Inl x" by (simp_all add: enter_def)
    with 1 2 st1 envs_fine_extends [OF assms(2) 2] show ?thesis by simp
  next
    case (Inr nes)
    let ?es' = "map2 dict_update (envs st) nes"
    from assms(3) e Inr es have st': "st' = st1\<lparr>envs := ?es'\<rparr>" and r: "r = Inr ()"
      by (simp_all add: enter_def)
    have fine1: "envs_fine st1" by (rule envs_fine_extends [OF assms(2) 2])
    have "list_all2 (rebinds P n0 st st') (envs st) ?es'"
      unfolding st' using 3 [OF Inr]
    proof (rule list_all2_map2)
      fix env ne assume "env \<in> set (envs st)" and "rebinds P n0 st st1 env ne"
      with fine1 es show "rebinds P n0 st (st1\<lparr>envs := ?es'\<rparr>) env (dict_update env ne)"
        by (intro rebinds_final) (auto simp: envs_fine_def envs_ok_def)
    qed
    then have rb: "list_all2 (rebinds P n0 st st') (envs st) (envs st')" by (simp add: st')
    then have "list_all2 (\<lambda>env env'. map fst env' = map fst env \<and>
                     (\<forall>v \<in> snd ` set env'. v < length (heap st'))) (envs st) (envs st')"
      by (rule list_all2_mono) (simp add: rebinds_def)
    with assms(2) have "envs_fine st'" by (rule envs_fine_from)
    moreover have "consistent P n0 st'" using 1 by (simp add: st' consistent_envs)
    moreover have "extends n0 st (st'\<lparr>envs := envs st\<rparr>)" using 2 st1 by (simp add: st')
    ultimately show ?thesis using rb by simp
  qed
qed

lemma exit_scope_step:
  assumes "consistent P n0 st" and "envs_fine st" and "exit_scope limit st = (r, st')"
  shows "consistent P n0 st' \<and> envs_fine st' \<and> extends n0 st (st'\<lparr>envs := envs st\<rparr>) \<and>
         same_maps st st' \<and>
         (r = Inr False \<longrightarrow> list_all2 (restores n0 st st') (envs st) (envs st'))"
proof -
  obtain r1 st1 where e: "exit_envs limit (envs st) st = (r1, st1)"
    by (cases "exit_envs limit (envs st) st")
  from exit_envs_step [OF assms(1) envs_fine_prem [OF assms(2)] e]
  have 1: "consistent P n0 st1" and 2: "extends n0 st st1" and sm: "same_maps st st1"
    and 3: "\<And>nes. r1 = Inr nes \<Longrightarrow> list_all2 (restores n0 st st1) (envs st) nes" by simp_all
  have es: "envs st1 = envs st" using 2 by (simp add: extends_def)
  have st1: "st1\<lparr>envs := envs st\<rparr> = st1" using es by simp
  show ?thesis
  proof (cases r1)
    case (Inl x)
    with assms(3) e have "st' = st1" "r = Inl x" by (simp_all add: exit_scope_def)
    with 1 2 sm st1 envs_fine_extends [OF assms(2) 2] show ?thesis by simp
  next
    case (Inr nes)
    let ?es' = "map2 dict_update (envs st) nes"
    from assms(3) e Inr es have st': "st' = st1\<lparr>envs := ?es'\<rparr>" and r: "r = Inr False"
      by (simp_all add: exit_scope_def)
    have fine1: "envs_fine st1" by (rule envs_fine_extends [OF assms(2) 2])
    have "list_all2 (restores n0 st st') (envs st) ?es'"
      unfolding st' using 3 [OF Inr]
    proof (rule list_all2_map2)
      fix env ne assume "env \<in> set (envs st)" and "restores n0 st st1 env ne"
      with fine1 es show "restores n0 st (st1\<lparr>envs := ?es'\<rparr>) env (dict_update env ne)"
        by (intro restores_final) (auto simp: envs_fine_def envs_ok_def)
    qed
    then have rb: "list_all2 (restores n0 st st') (envs st) (envs st')" by (simp add: st')
    then have "list_all2 (\<lambda>env env'. map fst env' = map fst env \<and>
                     (\<forall>v \<in> snd ` set env'. v < length (heap st'))) (envs st) (envs st')"
      by (rule list_all2_mono) (simp add: restores_def)
    with assms(2) have "envs_fine st'" by (rule envs_fine_from)
    moreover have "consistent P n0 st'" using 1 by (simp add: st' consistent_envs)
    moreover have "extends n0 st (st'\<lparr>envs := envs st\<rparr>)" using 2 st1 by (simp add: st')
    moreover have "same_maps st st'" using sm by (simp add: st' same_maps_def)
    ultimately show ?thesis using rb by simp
  qed
qed

lemma init_consistent:
  assumes "well_formed (init h es icpt)"
  shows "consistent P (length h) (init h es icpt) \<and> envs_fine (init h es icpt)"
  using assms
  by (simp add: well_formed_def consistent_def originals_ok_def maps_agree_def cache_ok_def
      envs_fine_def init_def)

lemma reachable_consistent:
  "reachable P st \<Longrightarrow> \<exists>n0. consistent P n0 st \<and> envs_fine st"
proof (induction rule: reachable.induct)
  case (made h es icpt P)
  from init_consistent [OF made] show ?case by blast
next
  case (wrapped P st fn)
  then obtain n0 where inv: "consistent P n0 st" and fine: "envs_fine st" by blast
  obtain w st' where w: "wrap_fn P fn None st = (w, st')" by (cases "wrap_fn P fn None st")
  from wrap_fn_step [OF inv wrapped.hyps(2) _ w]
  have "consistent P n0 st'" "extends n0 st st'" by simp_all
  with fine w show ?case by (auto intro: envs_fine_extends)
next
  case (entered P st)
  then obtain n0 where inv: "consistent P n0 st" and fine: "envs_fine st" by blast
  obtain r st' where e: "enter P st = (r, st')" by (cases "enter P st")
  from enter_scope_step [OF inv fine e] e show ?case by auto
next
  case (exited P st limit)
  then obtain n0 where inv: "consistent P n0 st" and fine: "envs_fine st" by blast
  obtain r st' where e: "exit_scope limit st = (r, st')" by (cases "exit_scope limit st")
  from exit_scope_step [OF inv fine e] e show ?case by auto
qed


lemma example_well_formed: "well_formed example_scope"
  by code_simp




lemma example_exited_envs:
  "envs example_exited =
     [[(''f'', 1), (''g'', 2), (''d'', 16), (''e'', 17), (''C'', 7), (''n'', 9)]]"
  unfolding example_exited_def example_entered_def by code_simp

lemma example_entered_maps:
  "original_map example_entered 11 = Some 1 \<and> original_map example_entered 2 = Some 2 \<and>
   wrapper_map example_entered 2 = Some 2"
  unfolding example_entered_def by code_simp

lemma example_exited_maps: "original_map example_exited 11 = Some 1"
  unfolding example_exited_def example_entered_def by code_simp


text \<open>
  C2, amended. In every state of a scope instance, a value is reported as an enforcement
  wrapper exactly when it is the cached result of wrapping some callable: that callable
  itself, or a wrapper, which is only ever built for a callable that carries conditions.
  Deactivation leaves the registry as it is.
\<close>
theorem registry_matches_wrapper_cache:
  assumes "reachable P st"
  shows "(is_enforcement_wrapper st v \<longleftrightarrow>
            (\<exists>fn. wrapper_map st fn = Some v \<and> (v = fn \<or> carries_conditions P fn))) \<and>
         original_map (snd (exit_scope limit st)) = original_map st"
proof -
  from reachable_consistent [OF assms] obtain n0
    where inv: "consistent P n0 st" and fine: "envs_fine st" by blast
  from inv have ma: "maps_agree st" and co: "cache_ok P st" by (simp_all add: consistent_def)
  have "is_enforcement_wrapper st v \<longleftrightarrow> (\<exists>fn. wrapper_map st fn = Some v)"
    using ma by (auto simp: is_enforcement_wrapper_def maps_agree_def)
  also have "\<dots> \<longleftrightarrow> (\<exists>fn. wrapper_map st fn = Some v \<and> (v = fn \<or> carries_conditions P fn))"
    using co unfolding cache_ok_def by blast
  finally have 1: "is_enforcement_wrapper st v \<longleftrightarrow>
            (\<exists>fn. wrapper_map st fn = Some v \<and> (v = fn \<or> carries_conditions P fn))" .
  obtain r st' where e: "exit_scope limit st = (r, st')" by (cases "exit_scope limit st")
  from exit_scope_step [OF inv fine e] have "same_maps st st'" by simp
  then have "original_map (snd (exit_scope limit st)) = original_map st"
    using e by (simp add: same_maps_def)
  with 1 show ?thesis by simp
qed

theorem registry_matches_wrapper_cache_witness:
  "reachable example_provider example_entered \<and>
   is_enforcement_wrapper example_entered 2 \<and> wrapper_map example_entered 2 = Some 2 \<and>
   original_map (snd (exit_scope 5 example_entered)) 11 = Some 1"
proof -
  have "reachable example_provider example_scope"
    unfolding example_scope_def
    by (rule reachable.made) (rule example_well_formed [unfolded example_scope_def])
  then have r: "reachable example_provider example_entered"
    unfolding example_entered_def by (rule reachable.entered)
  have 1: "is_enforcement_wrapper example_entered 2"
    using example_entered_maps by (simp add: is_enforcement_wrapper_def)
  from registry_matches_wrapper_cache [OF r, of 2 5] r 1 example_entered_maps
  show ?thesis by simp
qed

text \<open>
  C2 as stated fails: wrapping function 2, which has no conditions, makes no wrapper
  object and yet gives function 2 a registry entry; and after deactivation has bound
  \<^verbatim>\<open>f\<close> to the original again, the wrapper 11 it uninstalled still has its entry.
\<close>

theorem registry_entry_without_wrapper:
  "\<not> has_any (get_fn_conditions example_provider 2) \<and>
   heap (snd (wrap_fn example_provider 2 None example_scope)) = heap example_scope \<and>
   is_enforcement_wrapper (snd (wrap_fn example_provider 2 None example_scope)) 2 \<and>
   map_of (envs example_exited ! 0) ''f'' = Some 1 \<and>
   is_enforcement_wrapper example_exited 11"
proof -
  have 1: "\<not> has_any (get_fn_conditions example_provider 2)"
    by (simp add: example_provider_def has_any_def no_conditions_def)
  have 2: "heap (snd (wrap_fn example_provider 2 None example_scope)) = heap example_scope"
    using 1 by (simp add: wrap_fn_def example_scope_def init_def is_enforcement_wrapper_def)
  have 3: "is_enforcement_wrapper (snd (wrap_fn example_provider 2 None example_scope)) 2"
    using 1 by (simp add: wrap_fn_def example_scope_def init_def is_enforcement_wrapper_def)
  have 4: "map_of (envs example_exited ! 0) ''f'' = Some 1"
    by (simp add: example_exited_envs)
  have 5: "is_enforcement_wrapper example_exited 11"
    using example_exited_maps by (simp add: is_enforcement_wrapper_def)
  from 1 2 3 4 5 show ?thesis by blast
qed








end
